theory Spec2Isabelle
  imports Main
begin

section \<open>goog.debug.ErrorHandler: values, closures and state\<close>

text \<open>
  The source file \<^verbatim>\<open>closure/goog/debug/errorhandler.js\<close> builds closures, attaches
  them as properties to the functions they wrap and calls functions that may throw.
  The model keeps these three aspects explicit.

  \<^item> A JavaScript value is a \<open>val\<close>. A function object is a \<open>fnobj\<close>: a host or user
    function (\<open>Native\<close>, opaque, identified by a number), the closure returned by
    \<^verbatim>\<open>getProtectedFunction\<close> (\<open>Protected\<close>, with its captured variables \<^verbatim>\<open>that\<close>,
    \<^verbatim>\<open>tracers\<close>, \<^verbatim>\<open>stackTrace\<close> and \<^verbatim>\<open>fn\<close>), or the closure assigned to
    \<^verbatim>\<open>win.setTimeout\<close> / \<^verbatim>\<open>win.setInterval\<close> (\<open>TimerShim\<close>, with its captured
    \<^verbatim>\<open>that\<close> and \<^verbatim>\<open>originalSetTimeout\<close> / \<^verbatim>\<open>originalSetInterval\<close>; the two
    anonymous functions of the source have the same body up to the name of that variable).
    Every closure carries the allocation number it was created with, so two closures
    created at different moments are different objects even when they capture the same
    values. The captured variables are never reassigned by the source, so the closure
    holds their values.
  \<^item> An \<^verbatim>\<open>ErrorHandler\<close> instance is a \<open>guard\<close>: its identity number and its
    \<^verbatim>\<open>errorHandlerFn_\<close>, which only the constructor assigns. Its mutable field
    \<^verbatim>\<open>addTracersToProtectedFunctions_\<close> lives in the state.
  \<^item> A thrown exception is the \<open>Inl\<close> branch of a result \<open>val + val\<close>.
\<close>

datatype val =
    VUndef
  | VNull
  | VBool bool
  | VNum int
  | VStr string
  | VObj nat
  | VGlobal
  | VBoxed val
  | VTypeError
  | VFun fnobj
and fnobj =
    Native nat bool
  | Protected nat guard bool "string option" val
  | TimerShim nat guard val
and guard =
    Guard nat val

text \<open>
  \<open>Native n c\<close>: \<open>c\<close> tells whether the callable has the methods of
  \<^verbatim>\<open>Function.prototype\<close>, \<^verbatim>\<open>.call\<close> and \<^verbatim>\<open>.apply\<close>; the source's comment says
  that the timer functions of IE have no \<^verbatim>\<open>.call\<close>. \<open>VGlobal\<close> is the global
  object, \<open>VBoxed v\<close> the object a primitive \<open>v\<close> is converted to.
\<close>

text \<open>
  Modelled from the spec: \<^verbatim>\<open>goog.getUid\<close> is not under src/. The spec says that the
  cache key is computed from the identity of the guard instance, so the uid of a guard is
  its identity number.
\<close>

fun uid :: "guard \<Rightarrow> nat" where
  "uid (Guard u h) = u"

text \<open>The private field \<^verbatim>\<open>errorHandlerFn_\<close> (a name cannot end with an underscore here).\<close>

fun errorHandlerFn :: "guard \<Rightarrow> val" where
  "errorHandlerFn (Guard u h) = h"

text \<open>
  What the program does that an observer outside can see, in order. The call of a host
  or user function is recorded with the receiver and the arguments its caller passes.
\<close>

datatype event =
    EvCall nat val "val list"
  | EvStartTracer string nat
  | EvStopTracer nat
  | EvGetStacktrace nat

text \<open>
  Whether an object takes new properties and lets its properties be written:
  \<^verbatim>\<open>Object.preventExtensions\<close> and \<^verbatim>\<open>Object.seal\<close> leave it \<open>NonExtensible\<close>,
  \<^verbatim>\<open>Object.freeze\<close> leaves it \<open>Frozen\<close>.
\<close>

datatype integrity = Extensible | NonExtensible | Frozen

text \<open>
  The state: the own properties of objects (keyed by the object), the prototype chain of
  every value (nearest prototype first; for a primitive, the chain of the object it is
  converted to), the integrity of every object, each guard's own
  \<^verbatim>\<open>addTracersToProtectedFunctions_\<close> (absent until the setter runs, when the
  prototype's \<^verbatim>\<open>false\<close> is read), the timer properties of the object named
  \<^verbatim>\<open>window\<close> (absent outside a browser), the allocation counter, the tracer's next
  handle, the event log, and the state \<open>'u\<close> of the host and user code.
\<close>

record 'u state =
  props :: "val \<Rightarrow> string \<rightharpoonup> val"
  proto_chain :: "val \<Rightarrow> val list"
  integrity :: "val \<Rightarrow> integrity"
  flags :: "nat \<rightharpoonup> bool"
  window :: "(string \<rightharpoonup> val) option"
  next_id :: nat
  next_tracer :: nat
  log :: "event list"
  ustate :: 'u

text \<open>
  The environment: what a host or user function does when it is invoked with a receiver
  and arguments (it returns or throws, and may change its own state \<open>'u\<close>; it is taken
  not to touch the properties, the prototypes, the flags or the window), and the call stack rendering
  \<^verbatim>\<open>goog.debug.getStacktraceSimple\<close> would return for a depth, which is not under
  src/ and is taken as a parameter.
\<close>

record 'u env =
  behaviour :: "nat \<Rightarrow> val \<Rightarrow> val list \<Rightarrow> 'u \<Rightarrow> (val + val) \<times> 'u"
  getStacktraceSimple :: "nat \<Rightarrow> 'u \<Rightarrow> string"

subsection \<open>JavaScript primitives the source relies on\<close>

fun truthy :: "val \<Rightarrow> bool" where
  "truthy VUndef = False"
| "truthy VNull = False"
| "truthy (VBool b) = b"
| "truthy (VNum n) = (n \<noteq> 0)"
| "truthy (VStr s) = (s \<noteq> [])"
| "truthy (VObj n) = True"
| "truthy VGlobal = True"
| "truthy (VBoxed v) = True"
| "truthy VTypeError = True"
| "truthy (VFun f) = True"

fun is_object :: "val \<Rightarrow> bool" where
  "is_object (VObj n) = True"
| "is_object VGlobal = True"
| "is_object (VBoxed v) = True"
| "is_object VTypeError = True"
| "is_object (VFun f) = True"
| "is_object v = False"

text \<open>
  The \<^verbatim>\<open>this\<close> of a function of the source. The file has no \<^verbatim>\<open>"use strict"\<close>, so its
  functions see the global object in place of an \<^verbatim>\<open>undefined\<close> or \<^verbatim>\<open>null\<close>
  receiver and an object in place of a primitive one.
\<close>

fun this_of :: "val \<Rightarrow> val" where
  "this_of VUndef = VGlobal"
| "this_of VNull = VGlobal"
| "this_of (VBool b) = VBoxed (VBool b)"
| "this_of (VNum n) = VBoxed (VNum n)"
| "this_of (VStr s) = VBoxed (VStr s)"
| "this_of v = v"

text \<open>
  \<^verbatim>\<open>o[k]\<close>: a TypeError on \<^verbatim>\<open>undefined\<close> and \<^verbatim>\<open>null\<close>; otherwise the property
  of the first object that has one among the object itself and its prototype chain, and
  \<^verbatim>\<open>undefined\<close> when none has.
\<close>

fun chain_lookup :: "(val \<Rightarrow> string \<rightharpoonup> val) \<Rightarrow> val list \<Rightarrow> string \<Rightarrow> val option" where
  "chain_lookup pr [] k = None"
| "chain_lookup pr (p # ps) k =
     (case pr p k of Some v \<Rightarrow> Some v | None \<Rightarrow> chain_lookup pr ps k)"

definition holders :: "val \<Rightarrow> 'u state \<Rightarrow> val list" where
  "holders ob s = (if is_object ob then [ob] else []) @ proto_chain s ob"

definition get_prop :: "val \<Rightarrow> string \<Rightarrow> 'u state \<Rightarrow> val + val" where
  "get_prop ob k s =
     (if ob = VUndef \<or> ob = VNull then Inl VTypeError
      else Inr (case chain_lookup (props s) (holders ob s) k of None \<Rightarrow> VUndef | Some v \<Rightarrow> v))"

text \<open>
  Whether \<^verbatim>\<open>o[k] = v\<close> stores anything: an own property is written unless the
  object is frozen; a new one is added when the object is extensible and no frozen
  prototype holds the key. A primitive stores nothing.
\<close>

definition can_put :: "val \<Rightarrow> string \<Rightarrow> 'u state \<Rightarrow> bool" where
  "can_put ob k s \<longleftrightarrow>
     is_object ob \<and>
     (case props s ob k of
        Some v \<Rightarrow> integrity s ob \<noteq> Frozen
      | None \<Rightarrow>
          integrity s ob = Extensible \<and>
          (case find (\<lambda>p. props s p k \<noteq> None) (proto_chain s ob) of
             None \<Rightarrow> True
           | Some h \<Rightarrow> integrity s h \<noteq> Frozen))"

text \<open>
  \<^verbatim>\<open>o[k] = v\<close> outside strict mode: stored when it can be, silently dropped
  otherwise. (On \<^verbatim>\<open>undefined\<close> and \<^verbatim>\<open>null\<close> it throws, but the source reads
  \<^verbatim>\<open>fn[protectedFnName]\<close> first, which has thrown by then.)
\<close>

definition set_prop :: "val \<Rightarrow> string \<Rightarrow> val \<Rightarrow> 'u state \<Rightarrow> 'u state" where
  "set_prop ob k v s =
     (if can_put ob k s then s\<lparr>props := (props s)(ob := (props s ob)(k \<mapsto> v))\<rparr> else s)"

text \<open>\<^verbatim>\<open>arguments[i]\<close> as a named parameter: \<^verbatim>\<open>undefined\<close> when not supplied.\<close>

definition arg :: "nat \<Rightarrow> val list \<Rightarrow> val" where
  "arg i args = (if i < length args then args ! i else VUndef)"

text \<open>A non-negative integer converted to a string by \<^verbatim>\<open>+\<close>: its decimal digits.\<close>

definition digit_char :: "nat \<Rightarrow> char" where
  "digit_char d = char_of (48 + d)"

fun string_of_nat :: "nat \<Rightarrow> string" where
  "string_of_nat n =
     (if n < 10 then [digit_char n] else string_of_nat (n div 10) @ [digit_char (n mod 10)])"

declare string_of_nat.simps [simp del]

definition string_of_bool :: "bool \<Rightarrow> string" where
  "string_of_bool b = (if b then ''true'' else ''false'')"

subsection \<open>The external collaborators\<close>

text \<open>
  Modelled from the spec: \<^verbatim>\<open>goog.debug.Trace.startTracer\<close> is not under src/. The
  spec gives \<^verbatim>\<open>startTracer(label) -> TraceHandle\<close>, the handle being opaque and passed
  unchanged to the stop call. Here a start hands out the next handle and is recorded in
  the log; it does not throw.
\<close>

definition startTracer :: "string \<Rightarrow> 'u state \<Rightarrow> nat \<times> 'u state" where
  "startTracer name s =
     (next_tracer s,
      s\<lparr>next_tracer := Suc (next_tracer s),
        log := log s @ [EvStartTracer name (next_tracer s)]\<rparr>)"

text \<open>
  Modelled from the spec: \<^verbatim>\<open>goog.debug.Trace.stopTracer\<close> is not under src/. The
  spec gives \<^verbatim>\<open>stopTracer(handle) -> void\<close>. Here a stop is recorded in the log with
  the handle it was given; it does not throw.
\<close>

definition stopTracer :: "nat \<Rightarrow> 'u state \<Rightarrow> 'u state" where
  "stopTracer tracer s = s\<lparr>log := log s @ [EvStopTracer tracer]\<rparr>"

section \<open>The methods of goog.debug.ErrorHandler\<close>

text \<open>\<^verbatim>\<open>new goog.debug.ErrorHandler(handler)\<close>: a new object holding the handler.\<close>

definition ErrorHandler :: "val \<Rightarrow> 'u state \<Rightarrow> guard \<times> 'u state" where
  "ErrorHandler handler s = (Guard (next_id s) handler, s\<lparr>next_id := Suc (next_id s)\<rparr>)"

text \<open>
  \<^verbatim>\<open>this.addTracersToProtectedFunctions_\<close>: the guard's own value when the setter has
  run, the prototype's \<^verbatim>\<open>false\<close> otherwise.
\<close>

definition addTracersToProtectedFunctions :: "guard \<Rightarrow> 'u state \<Rightarrow> bool" where
  "addTracersToProtectedFunctions that s =
     (case flags s (uid that) of None \<Rightarrow> False | Some b \<Rightarrow> b)"

definition setAddTracersToProtectedFunctions :: "guard \<Rightarrow> bool \<Rightarrow> 'u state \<Rightarrow> 'u state" where
  "setAddTracersToProtectedFunctions that newVal s =
     s\<lparr>flags := (flags s)(uid that \<mapsto> newVal)\<rparr>"

definition CR :: char where "CR = CHR 0x0D"
definition LF :: char where "LF = CHR 0x0A"

text \<open>
  \<^verbatim>\<open>stackTrace.replace(/(\r\n|\r|\n)/g, '##STACK_BR##')\<close>: from left to right, a CR
  followed by LF is one match, a CR alone is one, an LF alone is one.
\<close>

fun replace_newlines :: "string \<Rightarrow> string" where
  "replace_newlines [] = []"
| "replace_newlines [c] = (if c = CR \<or> c = LF then ''##STACK_BR##'' else [c])"
| "replace_newlines (c # d # cs) =
     (if c = CR \<and> d = LF then ''##STACK_BR##'' @ replace_newlines cs
      else if c = CR \<or> c = LF then ''##STACK_BR##'' @ replace_newlines (d # cs)
      else c # replace_newlines (d # cs))"

definition getStackTraceHolder :: "string \<Rightarrow> string" where
  "getStackTraceHolder stackTrace =
     ''##PE_STACK_START##'' @ replace_newlines stackTrace @ ''##PE_STACK_END##''"

text \<open>
  \<^verbatim>\<open>'__protected_' + goog.getUid(this) + '_' + this.addTracersToProtectedFunctions_ + '__'\<close>
\<close>

definition protectedFnName :: "nat \<Rightarrow> bool \<Rightarrow> string" where
  "protectedFnName u tracers =
     ''__protected_'' @ string_of_nat u @ ''_'' @ string_of_bool tracers @ ''__''"

text \<open>
  \<^verbatim>\<open>getProtectedFunction\<close>: reads the flag, captures the stack when it is set, and
  returns a new closure.
\<close>

definition getProtectedFunction ::
  "'u env \<Rightarrow> guard \<Rightarrow> val \<Rightarrow> 'u state \<Rightarrow> val \<times> 'u state" where
  "getProtectedFunction E that fn s =
     (let tracers = addTracersToProtectedFunctions that s;
          (stackTrace, s1) =
            (if tracers
             then (Some (getStacktraceSimple E 15 (ustate s)),
                   s\<lparr>log := log s @ [EvGetStacktrace 15]\<rparr>)
             else (None, s))
      in (VFun (Protected (next_id s1) that tracers stackTrace fn),
          s1\<lparr>next_id := Suc (next_id s1)\<rparr>))"

text \<open>
  \<^verbatim>\<open>protectEntryPoint\<close>: the first read of \<^verbatim>\<open>fn[protectedFnName]\<close> throws on
  \<^verbatim>\<open>undefined\<close> and \<^verbatim>\<open>null\<close>; a falsy value there makes the method build and
  store a wrapper; the method returns what the property holds at the end.
\<close>

definition protectEntryPoint ::
  "'u env \<Rightarrow> guard \<Rightarrow> val \<Rightarrow> 'u state \<Rightarrow> (val + val) \<times> 'u state" where
  "protectEntryPoint E that fn s =
     (let nm = protectedFnName (uid that) (addTracersToProtectedFunctions that s)
      in case get_prop fn nm s of
           Inl e \<Rightarrow> (Inl e, s)
         | Inr v \<Rightarrow>
             (let s2 = (if \<not> truthy v
                        then (let (w, s1) = getProtectedFunction E that fn s
                              in set_prop fn nm w s1)
                        else s)
              in (get_prop fn nm s2, s2)))"

definition wrap :: "'u env \<Rightarrow> guard \<Rightarrow> val \<Rightarrow> 'u state \<Rightarrow> (val + val) \<times> 'u state" where
  "wrap E that fn s = protectEntryPoint E that fn s"

text \<open>
  \<^verbatim>\<open>originalSetTimeout.call\<close> as a condition, and \<^verbatim>\<open>fn.apply\<close> as a callee: a
  TypeError on \<^verbatim>\<open>undefined\<close> and \<^verbatim>\<open>null\<close>; a closure of the source has the methods
  of \<^verbatim>\<open>Function.prototype\<close>; a host or user function says so itself; nothing else has
  them.
\<close>

fun has_call :: "val \<Rightarrow> val + bool" where
  "has_call VUndef = Inl VTypeError"
| "has_call VNull = Inl VTypeError"
| "has_call (VFun (Native n c)) = Inr c"
| "has_call (VFun f) = Inr True"
| "has_call v = Inr False"

text \<open>
  Calling a value with a receiver and arguments. A host or user function is recorded in
  the log and does what the environment says. The closure of
  \<^verbatim>\<open>getProtectedFunction\<close> starts the tracer before the \<^verbatim>\<open>try\<close>, calls
  \<^verbatim>\<open>fn.apply(this, arguments)\<close> (a TypeError when \<^verbatim>\<open>fn\<close> has no \<^verbatim>\<open>apply\<close>), on
  a throw calls \<^verbatim>\<open>that.errorHandlerFn_(e)\<close> (its receiver is the guard) and then throws
  \<^verbatim>\<open>e\<close>, unless the handler threw, and stops the tracer in the \<^verbatim>\<open>finally\<close>. The
  closure assigned to \<^verbatim>\<open>win.setTimeout\<close> protects its first parameter and passes it
  and the second to the original, through \<^verbatim>\<open>.call\<close> with its own \<^verbatim>\<open>this\<close> when
  there is a \<^verbatim>\<open>.call\<close>, directly otherwise. Calling anything else is a TypeError.
\<close>

fun call_val :: "'u env \<Rightarrow> val \<Rightarrow> val \<Rightarrow> val list \<Rightarrow> 'u state \<Rightarrow> (val + val) \<times> 'u state" where
  "call_val E (VFun (Native n c)) receiver args s =
     (let (r, u) = behaviour E n receiver args (ustate s)
      in (r, s\<lparr>log := log s @ [EvCall n receiver args], ustate := u\<rparr>))"
| "call_val E (VFun (Protected i (Guard g handler) tracers stackTrace fn)) receiver args s =
     (let this = this_of receiver
      in if tracers then
        (case stackTrace of
           None \<Rightarrow> (Inl VTypeError, s)
         | Some st \<Rightarrow>
             (let (tracer, s1) = startTracer (''protectedEntryPoint: '' @ getStackTraceHolder st) s;
                  (r, s4) =
                    (case (case has_call fn of
                             Inl e \<Rightarrow> (Inl e, s1)
                           | Inr True \<Rightarrow> call_val E fn this args s1
                           | Inr False \<Rightarrow> (Inl VTypeError, s1)) of
                       (Inr v, s2) \<Rightarrow> (Inr v, s2)
                     | (Inl e, s2) \<Rightarrow>
                         (case call_val E handler (VObj g) [e] s2 of
                            (Inr u, s3) \<Rightarrow> (Inl e, s3)
                          | (Inl e', s3) \<Rightarrow> (Inl e', s3)))
              in (r, stopTracer tracer s4)))
      else
        (case (case has_call fn of
                 Inl e \<Rightarrow> (Inl e, s)
               | Inr True \<Rightarrow> call_val E fn this args s
               | Inr False \<Rightarrow> (Inl VTypeError, s)) of
           (Inr v, s2) \<Rightarrow> (Inr v, s2)
         | (Inl e, s2) \<Rightarrow>
             (case call_val E handler (VObj g) [e] s2 of
                (Inr u, s3) \<Rightarrow> (Inl e, s3)
              | (Inl e', s3) \<Rightarrow> (Inl e', s3))))"
| "call_val E (VFun (TimerShim i that original)) receiver args s =
     (let this = this_of receiver; fn = arg 0 args; time = arg 1 args
      in case protectEntryPoint E that fn s of
           (Inl e, s1) \<Rightarrow> (Inl e, s1)
         | (Inr fn', s1) \<Rightarrow>
             (case has_call original of
                Inl e \<Rightarrow> (Inl e, s1)
              | Inr True \<Rightarrow> call_val E original this [fn', time] s1
              | Inr False \<Rightarrow> call_val E original VUndef [fn', time] s1))"
| "call_val E v receiver args s = (Inl VTypeError, s)"

text \<open>
  \<^verbatim>\<open>protectWindowSetTimeout\<close> and \<^verbatim>\<open>protectWindowSetInterval\<close>:
  \<^verbatim>\<open>goog.getObjectByName('window')\<close> is \<^verbatim>\<open>null\<close> when there is no such global,
  and reading a property of it throws.
\<close>

definition protectWindowSetTimeout :: "guard \<Rightarrow> 'u state \<Rightarrow> (val + unit) \<times> 'u state" where
  "protectWindowSetTimeout that s =
     (case window s of
        None \<Rightarrow> (Inl VTypeError, s)
      | Some win \<Rightarrow>
          (let originalSetTimeout = (case win ''setTimeout'' of None \<Rightarrow> VUndef | Some v \<Rightarrow> v)
           in (Inr (),
               s\<lparr>window := Some (win(''setTimeout'' \<mapsto>
                                      VFun (TimerShim (next_id s) that originalSetTimeout))),
                 next_id := Suc (next_id s)\<rparr>)))"

definition protectWindowSetInterval :: "guard \<Rightarrow> 'u state \<Rightarrow> (val + unit) \<times> 'u state" where
  "protectWindowSetInterval that s =
     (case window s of
        None \<Rightarrow> (Inl VTypeError, s)
      | Some win \<Rightarrow>
          (let originalSetInterval = (case win ''setInterval'' of None \<Rightarrow> VUndef | Some v \<Rightarrow> v)
           in (Inr (),
               s\<lparr>window := Some (win(''setInterval'' \<mapsto>
                                       VFun (TimerShim (next_id s) that originalSetInterval))),
                 next_id := Suc (next_id s)\<rparr>)))"

section \<open>Notions used to state the properties\<close>

text \<open>The captured \<^verbatim>\<open>tracers\<close> of a protected closure, and the name of its trace span.\<close>

fun tracers_of :: "val \<Rightarrow> bool" where
  "tracers_of (VFun (Protected i g b st fn)) = b"
| "tracers_of v = False"

fun span_name :: "val \<Rightarrow> string" where
  "span_name (VFun (Protected i g b (Some st) fn)) =
     ''protectedEntryPoint: '' @ getStackTraceHolder st"
| "span_name v = []"

text \<open>
  \<^verbatim>\<open>fn.apply(this, arguments)\<close>, and the \<^verbatim>\<open>try\<close> and \<^verbatim>\<open>catch\<close> blocks of the
  protected closure without the tracer calls around them.
\<close>

definition apply_fn ::
  "'u env \<Rightarrow> val \<Rightarrow> val \<Rightarrow> val list \<Rightarrow> 'u state \<Rightarrow> (val + val) \<times> 'u state" where
  "apply_fn E fn this args s =
     (case has_call fn of
        Inl e \<Rightarrow> (Inl e, s)
      | Inr True \<Rightarrow> call_val E fn this args s
      | Inr False \<Rightarrow> (Inl VTypeError, s))"

definition protected_try ::
  "'u env \<Rightarrow> guard \<Rightarrow> val \<Rightarrow> val \<Rightarrow> val list \<Rightarrow> 'u state \<Rightarrow> (val + val) \<times> 'u state" where
  "protected_try E that fn this args s =
     (case apply_fn E fn this args s of
        (Inr v, s2) \<Rightarrow> (Inr v, s2)
      | (Inl e, s2) \<Rightarrow>
          (case call_val E (errorHandlerFn that) (VObj (uid that)) [e] s2 of
             (Inr u, s3) \<Rightarrow> (Inl e, s3)
           | (Inl e', s3) \<Rightarrow> (Inl e', s3)))"

text \<open>
  The memo invariant: whatever is stored on an object under a key
  \<^verbatim>\<open>__protected_<uid>_<flag>__\<close> is a protected closure around that object, built by
  a guard of that uid while its flag had that value, with a captured stack exactly when
  the flag was set. \<open>memo_ok g\<close> says moreover that the closures under the keys of
  \<open>g\<close> were built by \<open>g\<close> itself.
\<close>

definition memo_inv :: "'u state \<Rightarrow> bool" where
  "memo_inv s \<longleftrightarrow>
     (\<forall>ob u b v. props s ob (protectedFnName u b) = Some v \<longrightarrow>
        (\<exists>i h st. v = VFun (Protected i (Guard u h) b st ob) \<and> (b \<longleftrightarrow> st \<noteq> None)))"

definition memo_ok :: "guard \<Rightarrow> 'u state \<Rightarrow> bool" where
  "memo_ok g s \<longleftrightarrow>
     (\<forall>ob b v. props s ob (protectedFnName (uid g) b) = Some v \<longrightarrow>
        (\<exists>i st. v = VFun (Protected i g b st ob) \<and> (b \<longleftrightarrow> st \<noteq> None)))"

text \<open>
  \<open>built_by g fn w\<close>: \<open>w\<close> is a closure as \<^verbatim>\<open>getProtectedFunction\<close> of \<open>g\<close> builds
  them for \<open>fn\<close>, its captured \<^verbatim>\<open>tracers\<close> true exactly when it captured a stack.

  \<open>memoizable g ob s\<close>: \<open>ob\<close> can hold the memo entry of \<open>g\<close> for the current flag:
  it is an object that holds a truthy entry already, or an extensible object with nothing
  on its prototype chain that has a property under that key.

  \<open>memo_ready g ob s\<close>: the same, and the entry \<open>ob\<close> holds already, if any, is a
  wrapper \<open>g\<close> built around \<open>ob\<close> under the current flag.
\<close>

definition built_by :: "guard \<Rightarrow> val \<Rightarrow> val \<Rightarrow> bool" where
  "built_by g fn w \<longleftrightarrow> (\<exists>i st. w = VFun (Protected i g (st \<noteq> None) st fn))"

definition memoizable :: "guard \<Rightarrow> val \<Rightarrow> 'u state \<Rightarrow> bool" where
  "memoizable g ob s \<longleftrightarrow>
     is_object ob \<and>
     ((\<exists>v. props s ob (protectedFnName (uid g) (addTracersToProtectedFunctions g s)) = Some v
           \<and> truthy v)
      \<or> (integrity s ob = Extensible \<and>
          (\<forall>p\<in>set (proto_chain s ob).
             props s p (protectedFnName (uid g) (addTracersToProtectedFunctions g s)) = None)))"

definition memo_ready :: "guard \<Rightarrow> val \<Rightarrow> 'u state \<Rightarrow> bool" where
  "memo_ready g ob s \<longleftrightarrow>
     is_object ob \<and>
     (case props s ob (protectedFnName (uid g) (addTracersToProtectedFunctions g s)) of
        Some v \<Rightarrow> built_by g ob v \<and> tracers_of v = addTracersToProtectedFunctions g s
      | None \<Rightarrow>
          integrity s ob = Extensible \<and>
          (\<forall>p\<in>set (proto_chain s ob).
             props s p (protectedFnName (uid g) (addTracersToProtectedFunctions g s)) = None))"

text \<open>What a program may do with the class, one call at a time.\<close>

datatype op =
    OpNew val
  | OpSetAddTracers guard bool
  | OpProtect guard val
  | OpInvoke val val "val list"
  | OpProtectWindowSetTimeout guard
  | OpProtectWindowSetInterval guard

fun exec :: "'u env \<Rightarrow> op \<Rightarrow> 'u state \<Rightarrow> 'u state" where
  "exec E (OpNew handler) s = snd (ErrorHandler handler s)"
| "exec E (OpSetAddTracers g newVal) s = setAddTracersToProtectedFunctions g newVal s"
| "exec E (OpProtect g fn) s = snd (protectEntryPoint E g fn s)"
| "exec E (OpInvoke f this args) s = snd (call_val E f this args s)"
| "exec E (OpProtectWindowSetTimeout g) s = snd (protectWindowSetTimeout g s)"
| "exec E (OpProtectWindowSetInterval g) s = snd (protectWindowSetInterval g s)"

fun run :: "'u env \<Rightarrow> op list \<Rightarrow> 'u state \<Rightarrow> 'u state" where
  "run E [] s = s"
| "run E (x # xs) s = run E xs (exec E x s)"

text \<open>The tracer handles an event mentions.\<close>

fun handle_of :: "event \<Rightarrow> nat option" where
  "handle_of (EvStartTracer name t) = Some t"
| "handle_of (EvStopTracer t) = Some t"
| "handle_of ev = None"

text \<open>Reading a decimal number back, and the part of a key after its fixed prefix.\<close>

definition nat_of_string :: "string \<Rightarrow> nat" where
  "nat_of_string cs = foldl (\<lambda>n c. 10 * n + (of_char c - 48)) 0 cs"

definition key_tail :: "nat \<Rightarrow> bool \<Rightarrow> string" where
  "key_tail u b = string_of_nat u @ CHR ''_'' # (string_of_bool b @ ''__'')"

subsection \<open>A concrete environment\<close>

text \<open>
  Function 1 throws \<^verbatim>\<open>"x"\<close>, function 3 throws \<^verbatim>\<open>"h"\<close>, function 4 returns 7,
  every other function returns 42; each call is counted in the user state. In
  \<open>demo_state\<close> no object has a property or a prototype and every object is extensible; in
  \<open>demo_frozen\<close> every object is frozen; in \<open>demo_inherit\<close> function 5 has been protected
  by the first guard below and every other value inherits from it; in \<open>demo_foreign\<close>
  other code has stored the number 1 on every object under both keys of the first guard.
\<close>

definition demo_env :: "nat env" where
  "demo_env =
     \<lparr>behaviour = (\<lambda>n this args u.
          if n = 1 then (Inl (VStr ''x''), Suc u)
          else if n = 3 then (Inl (VStr ''h''), Suc u)
          else if n = 4 then (Inr (VNum 7), Suc u)
          else (Inr (VNum 42), Suc u)),
      getStacktraceSimple = (\<lambda>d u. ''f()'' @ [CR, LF] @ ''g()'' @ [LF])\<rparr>"

definition demo_state :: "nat state" where
  "demo_state =
     \<lparr>props = (\<lambda>ob. Map.empty),
      proto_chain = (\<lambda>ob. []),
      integrity = (\<lambda>ob. Extensible),
      flags = Map.empty,
      window = Some [''setTimeout'' \<mapsto> VFun (Native 4 False),
                     ''setInterval'' \<mapsto> VFun (Native 4 True)],
      next_id = 10,
      next_tracer = 0,
      log = [],
      ustate = 0\<rparr>"

text \<open>
  Two guards: the handler of the first (function 2) returns, the handler of the second
  (function 3) throws. And the relation between a state and a later one that the log
  lemmas use: the log has only grown, by events whose tracer handles are not older than
  the next handle of the earlier state.
\<close>

definition demo_guard :: guard where
  "demo_guard = Guard 0 (VFun (Native 2 True))"

definition demo_guard_throwing :: guard where
  "demo_guard_throwing = Guard 1 (VFun (Native 3 True))"

definition demo_frozen :: "nat state" where
  "demo_frozen = demo_state\<lparr>integrity := (\<lambda>ob. Frozen)\<rparr>"

definition demo_inherit :: "nat state" where
  "demo_inherit =
     demo_state
       \<lparr>props := (\<lambda>ob. if ob = VFun (Native 5 True)
                         then [protectedFnName 0 False \<mapsto>
                                 VFun (Protected 9 demo_guard False None (VFun (Native 5 True)))]
                         else Map.empty),
        proto_chain := (\<lambda>ob. if ob = VFun (Native 5 True) then [] else [VFun (Native 5 True)])\<rparr>"

definition demo_foreign :: "nat state" where
  "demo_foreign =
     demo_state
       \<lparr>props := (\<lambda>ob. [protectedFnName 0 False \<mapsto> VNum 1,
                            protectedFnName 0 True \<mapsto> VNum 1])\<rparr>"

definition grows :: "'u state \<Rightarrow> 'u state \<Rightarrow> bool" where
  "grows s s' \<longleftrightarrow>
     next_tracer s \<le> next_tracer s' \<and>
     (\<exists>d. log s' = log s @ d \<and> (\<forall>ev\<in>set d. \<forall>t. handle_of ev = Some t \<longrightarrow> next_tracer s \<le> t))"

text \<open>
  The guards whose \<^verbatim>\<open>protectEntryPoint\<close> a call of a value can reach: those captured by
  the timer closures among the functions it calls. An operation respects a guard when no
  other guard object carrying the same uid protects anything through it; uids are unique
  in a program, so every operation of a program respects every guard.
\<close>

fun shim_guards :: "val \<Rightarrow> guard set" where
  "shim_guards (VFun (Native n c)) = {}"
| "shim_guards (VFun (Protected i (Guard g handler) tracers stackTrace fn)) =
     shim_guards handler \<union> shim_guards fn"
| "shim_guards (VFun (TimerShim i that original)) = insert that (shim_guards original)"
| "shim_guards v = {}"

definition same_guard :: "guard \<Rightarrow> guard \<Rightarrow> bool" where
  "same_guard g g' \<longleftrightarrow> (uid g' = uid g \<longrightarrow> g' = g)"

fun op_respects :: "guard \<Rightarrow> op \<Rightarrow> bool" where
  "op_respects g (OpProtect g' fn) = same_guard g g'"
| "op_respects g (OpInvoke f this args) = (\<forall>that\<in>shim_guards f. same_guard g that)"
| "op_respects g x = True"

text \<open>A truthy property of the earlier state is still there, unchanged, in the later one.\<close>

definition props_le :: "'u state \<Rightarrow> 'u state \<Rightarrow> bool" where
  "props_le s s' \<longleftrightarrow> (\<forall>ob k v. props s ob k = Some v \<and> truthy v \<longrightarrow> props s' ob k = Some v)"

text \<open>Reading a global scheduler: \<^verbatim>\<open>window.setTimeout\<close>, \<^verbatim>\<open>window.setInterval\<close>.\<close>

definition window_prop :: "string \<Rightarrow> 'u state \<Rightarrow> val" where
  "window_prop nm s =
     (case window s of
        None \<Rightarrow> VUndef
      | Some win \<Rightarrow> (case win nm of None \<Rightarrow> VUndef | Some v \<Rightarrow> v))"

section \<open>Keys and properties\<close>

subsection \<open>A key determines the uid and the flag\<close>

lemma of_char_digit: "d < 10 \<Longrightarrow> (of_char (digit_char d) :: nat) = 48 + d"
  by (simp add: digit_char_def)

lemma nat_of_string_of_nat: "nat_of_string (string_of_nat n) = n"
proof (induction n rule: string_of_nat.induct)
  case (1 n)
  show ?case
  proof (cases "n < 10")
    case True
    then show ?thesis
      by (simp add: string_of_nat.simps [of n] nat_of_string_def of_char_digit)
  next
    case False
    have "nat_of_string (string_of_nat n) =
            10 * nat_of_string (string_of_nat (n div 10)) + (of_char (digit_char (n mod 10)) - 48)"
      using False by (subst string_of_nat.simps) (simp add: nat_of_string_def)
    also have "\<dots> = 10 * (n div 10) + n mod 10"
      using 1 False by (simp add: of_char_digit)
    finally show ?thesis by simp
  qed
qed

lemma string_of_nat_inj: "string_of_nat m = string_of_nat n \<Longrightarrow> m = n"
  by (metis nat_of_string_of_nat)

lemma digit_char_not_underscore: "d < 10 \<Longrightarrow> digit_char d \<noteq> CHR ''_''"
proof
  assume d: "d < 10" and "digit_char d = CHR ''_''"
  then have "(of_char (digit_char d) :: nat) = of_char (CHR ''_'')" by simp
  with d show False by (simp add: of_char_digit)
qed

lemma string_of_nat_no_underscore: "CHR ''_'' \<notin> set (string_of_nat n)"
proof (induction n rule: string_of_nat.induct)
  case (1 n)
  show ?case
  proof (cases "n < 10")
    case True
    then show ?thesis
      using digit_char_not_underscore [of n] by (simp add: string_of_nat.simps [of n])
  next
    case False
    then have "string_of_nat n = string_of_nat (n div 10) @ [digit_char (n mod 10)]"
      by (subst string_of_nat.simps) simp
    moreover have "digit_char (n mod 10) \<noteq> CHR ''_''"
      by (rule digit_char_not_underscore) simp
    ultimately show ?thesis using 1 False by auto
  qed
qed

lemma protectedFnName_tail: "protectedFnName u b = ''__protected_'' @ key_tail u b"
  by (simp add: protectedFnName_def key_tail_def)

lemma takeWhile_key_tail: "takeWhile (\<lambda>c. c \<noteq> CHR ''_'') (key_tail u b) = string_of_nat u"
proof -
  have "\<forall>x\<in>set (string_of_nat u). x \<noteq> CHR ''_''"
    using string_of_nat_no_underscore [of u] by auto
  then show ?thesis
    unfolding key_tail_def by (simp add: takeWhile_append2)
qed

lemma protectedFnName_inj:
  assumes "protectedFnName u b = protectedFnName u' b'"
  shows "u = u' \<and> b = b'"
proof -
  from assms have eq: "key_tail u b = key_tail u' b'"
    by (simp only: protectedFnName_tail same_append_eq)
  then have "takeWhile (\<lambda>c. c \<noteq> CHR ''_'') (key_tail u b)
           = takeWhile (\<lambda>c. c \<noteq> CHR ''_'') (key_tail u' b')"
    by (rule arg_cong)
  then have su: "string_of_nat u = string_of_nat u'"
    by (simp only: takeWhile_key_tail)
  then have u: "u = u'" by (rule string_of_nat_inj)
  from eq su have "string_of_bool b = string_of_bool b'"
    by (simp add: key_tail_def)
  then have "b = b'" by (cases b; cases b') (simp_all add: string_of_bool_def)
  with u show ?thesis by simp
qed

lemma protectedFnName_eq_iff:
  "protectedFnName u b = protectedFnName u' b' \<longleftrightarrow> u = u' \<and> b = b'"
  using protectedFnName_inj by blast

subsection \<open>Reading and writing properties\<close>


lemma this_of_object: "is_object v \<Longrightarrow> this_of v = v"
  by (cases v) simp_all

lemma chain_lookup_None: "chain_lookup pr ps k = None \<longleftrightarrow> (\<forall>p\<in>set ps. pr p k = None)"
  by (induction ps) (auto split: option.split)

lemma find_None_chain: "(\<forall>p\<in>set ps. pr p k = None) \<Longrightarrow> find (\<lambda>p. pr p k \<noteq> None) ps = None"
  by (simp add: find_None_iff)

lemma is_object_not_nullish: "is_object ob \<Longrightarrow> ob \<noteq> VUndef \<and> ob \<noteq> VNull"
  by (cases ob) simp_all

lemma get_prop_own:
  "is_object ob \<Longrightarrow> props s ob k = Some v \<Longrightarrow> get_prop ob k s = Inr v"
  using is_object_not_nullish [of ob] by (simp add: get_prop_def holders_def)

lemma get_prop_no_inherited:
  assumes "is_object ob" and "\<forall>p\<in>set (proto_chain s ob). props s p k = None"
  shows "get_prop ob k s = Inr (case props s ob k of None \<Rightarrow> VUndef | Some v \<Rightarrow> v)"
proof -
  have "chain_lookup (props s) (proto_chain s ob) k = None"
    using assms(2) by (simp add: chain_lookup_None)
  then show ?thesis
    using assms(1) is_object_not_nullish [of ob]
    by (simp add: get_prop_def holders_def split: option.split)
qed

lemma get_prop_nullish: "get_prop ob k s = Inl e \<longleftrightarrow> (ob = VUndef \<or> ob = VNull) \<and> e = VTypeError"
  by (auto simp: get_prop_def)

lemma set_prop_props:
  "props (set_prop ob k v s) = (if can_put ob k s then (props s)(ob := (props s ob)(k \<mapsto> v)) else props s)"
  by (simp add: set_prop_def)

lemma set_prop_frame:
  "flags (set_prop ob k v s) = flags s"
  "window (set_prop ob k v s) = window s"
  "next_id (set_prop ob k v s) = next_id s"
  "next_tracer (set_prop ob k v s) = next_tracer s"
  "log (set_prop ob k v s) = log s"
  "ustate (set_prop ob k v s) = ustate s"
  "proto_chain (set_prop ob k v s) = proto_chain s"
  "integrity (set_prop ob k v s) = integrity s"
  by (simp_all add: set_prop_def)

subsection \<open>protectEntryPoint on an object\<close>

lemma getProtectedFunction_eq:
  "getProtectedFunction E g fn s =
     (VFun (Protected (next_id s) g (addTracersToProtectedFunctions g s)
              (if addTracersToProtectedFunctions g s
               then Some (getStacktraceSimple E 15 (ustate s)) else None) fn),
      s\<lparr>log := log s @ (if addTracersToProtectedFunctions g s then [EvGetStacktrace 15] else []),
        next_id := Suc (next_id s)\<rparr>)"
  by (simp add: getProtectedFunction_def Let_def)

lemma getProtectedFunction_built:
  assumes "getProtectedFunction E g fn s = (w, s1)"
  shows "built_by g fn w" and "tracers_of w = addTracersToProtectedFunctions g s"
  using assms by (auto simp: getProtectedFunction_eq built_by_def)

lemma protectEntryPoint_hit:
  assumes "is_object fn"
    and "props s fn (protectedFnName (uid g) (addTracersToProtectedFunctions g s)) = Some v"
    and "truthy v"
  shows "protectEntryPoint E g fn s = (Inr v, s)"
  using assms by (simp add: protectEntryPoint_def Let_def get_prop_own)

lemma memoizable_can_put:
  assumes m: "memoizable g fn s"
    and nid: "props s' = props s" "proto_chain s' = proto_chain s" "integrity s' = integrity s"
    and falsy: "\<forall>v. props s fn (protectedFnName (uid g) (addTracersToProtectedFunctions g s)) = Some v
            \<longrightarrow> \<not> truthy v"
  shows "can_put fn (protectedFnName (uid g) (addTracersToProtectedFunctions g s)) s'"
proof -
  let ?k = "protectedFnName (uid g) (addTracersToProtectedFunctions g s)"
  from m falsy have ext: "integrity s fn = Extensible" and obj: "is_object fn"
    and chain: "\<forall>p\<in>set (proto_chain s fn). props s p ?k = None"
    unfolding memoizable_def by auto
  from chain have "find (\<lambda>p. props s p ?k \<noteq> None) (proto_chain s fn) = None"
    by (rule find_None_chain)
  with ext obj show ?thesis
    by (simp add: can_put_def nid split: option.split)
qed

lemma protectEntryPoint_miss:
  assumes m: "memoizable g fn s"
    and falsy: "\<forall>v. props s fn (protectedFnName (uid g) (addTracersToProtectedFunctions g s)) = Some v
            \<longrightarrow> \<not> truthy v"
  shows "protectEntryPoint E g fn s =
           (Inr (fst (getProtectedFunction E g fn s)),
            (snd (getProtectedFunction E g fn s))
              \<lparr>props := (props s)(fn := (props s fn)
                  (protectedFnName (uid g) (addTracersToProtectedFunctions g s)
                     \<mapsto> fst (getProtectedFunction E g fn s)))\<rparr>)"
proof -
  let ?k = "protectedFnName (uid g) (addTracersToProtectedFunctions g s)"
  let ?w = "fst (getProtectedFunction E g fn s)"
  let ?s1 = "snd (getProtectedFunction E g fn s)"
  from m falsy have obj: "is_object fn"
    and chain: "\<forall>p\<in>set (proto_chain s fn). props s p ?k = None"
    unfolding memoizable_def by auto
  have read: "get_prop fn ?k s = Inr (case props s fn ?k of None \<Rightarrow> VUndef | Some v \<Rightarrow> v)"
    using obj chain by (rule get_prop_no_inherited)
  have fal: "\<not> truthy (case props s fn ?k of None \<Rightarrow> VUndef | Some v \<Rightarrow> v)"
    using falsy by (cases "props s fn ?k") simp_all
  have put: "can_put fn ?k ?s1"
    by (rule memoizable_can_put [OF m _ _ _ falsy]) (simp_all add: getProtectedFunction_eq)
  have store: "set_prop fn ?k ?w ?s1 = ?s1\<lparr>props := (props s)(fn := (props s fn)(?k \<mapsto> ?w))\<rparr>"
    using put by (simp add: set_prop_def getProtectedFunction_eq)
  have reread: "get_prop fn ?k (?s1\<lparr>props := (props s)(fn := (props s fn)(?k \<mapsto> ?w))\<rparr>) = Inr ?w"
    using obj by (simp add: get_prop_own)
  show ?thesis
    using fal
    by (simp add: protectEntryPoint_def Let_def read split_beta store reread)
qed

lemma protectEntryPoint_cases:
  obtains (throws) e where "protectEntryPoint E g fn s = (Inl e, s)"
  | (found) v where "get_prop fn (protectedFnName (uid g) (addTracersToProtectedFunctions g s)) s = Inr v"
      and "truthy v" and "protectEntryPoint E g fn s = (Inr v, s)"
  | (built) v where "get_prop fn (protectedFnName (uid g) (addTracersToProtectedFunctions g s)) s = Inr v"
      and "\<not> truthy v"
      and "snd (protectEntryPoint E g fn s) =
             set_prop fn (protectedFnName (uid g) (addTracersToProtectedFunctions g s))
               (fst (getProtectedFunction E g fn s)) (snd (getProtectedFunction E g fn s))"
proof (cases "get_prop fn (protectedFnName (uid g) (addTracersToProtectedFunctions g s)) s")
  case (Inl e)
  then have "protectEntryPoint E g fn s = (Inl e, s)"
    by (simp add: protectEntryPoint_def Let_def)
  then show ?thesis by (rule throws)
next
  case (Inr v)
  show ?thesis
  proof (cases "truthy v")
    case True
    with Inr have "protectEntryPoint E g fn s = (Inr v, s)"
      by (simp add: protectEntryPoint_def Let_def)
    with Inr True show ?thesis by (rule found)
  next
    case False
    with Inr have "snd (protectEntryPoint E g fn s) =
             set_prop fn (protectedFnName (uid g) (addTracersToProtectedFunctions g s))
               (fst (getProtectedFunction E g fn s)) (snd (getProtectedFunction E g fn s))"
      by (simp add: protectEntryPoint_def Let_def split_beta)
    with Inr False show ?thesis by (rule built)
  qed
qed

lemma protectEntryPoint_props:
  "props (snd (protectEntryPoint E g fn s)) ob k = props s ob k \<or>
   (ob = fn \<and> k = protectedFnName (uid g) (addTracersToProtectedFunctions g s) \<and>
    props (snd (protectEntryPoint E g fn s)) ob k = Some (fst (getProtectedFunction E g fn s)) \<and>
    (\<forall>v. props s ob k = Some v \<longrightarrow> \<not> truthy v))"
proof (cases rule: protectEntryPoint_cases [of E g fn s])
  case (throws e)
  then show ?thesis by simp
next
  case (found v)
  then show ?thesis by simp
next
  case (built v)
  let ?k = "protectedFnName (uid g) (addTracersToProtectedFunctions g s)"
  let ?s1 = "snd (getProtectedFunction E g fn s)"
  have p1: "props ?s1 = props s" by (simp add: getProtectedFunction_eq)
  show ?thesis
  proof (cases "can_put fn ?k ?s1 \<and> ob = fn \<and> k = ?k")
    case False
    then show ?thesis unfolding built(3) by (auto simp: set_prop_props p1)
  next
    case True
    then have obj: "is_object fn" by (simp add: can_put_def)
    have "\<not> truthy v'" if "props s fn ?k = Some v'" for v'
      using get_prop_own [OF obj that] built(1,2) by simp
    with True show ?thesis unfolding built(3) by (simp add: set_prop_props p1)
  qed
qed

lemma protectEntryPoint_frame:
  "flags (snd (protectEntryPoint E g fn s)) = flags s"
  "window (snd (protectEntryPoint E g fn s)) = window s"
  "next_tracer (snd (protectEntryPoint E g fn s)) = next_tracer s"
  "ustate (snd (protectEntryPoint E g fn s)) = ustate s"
  "proto_chain (snd (protectEntryPoint E g fn s)) = proto_chain s"
  "integrity (snd (protectEntryPoint E g fn s)) = integrity s"
  by (cases rule: protectEntryPoint_cases [of E g fn s];
      simp add: set_prop_frame getProtectedFunction_eq)+

lemma protectEntryPoint_shape:
  assumes ok: "memo_ok g s" and m: "memoizable g fn s"
  shows "\<exists>i st s1.
           protectEntryPoint E g fn s =
             (Inr (VFun (Protected i g (addTracersToProtectedFunctions g s) st fn)), s1)
           \<and> (addTracersToProtectedFunctions g s \<longleftrightarrow> st \<noteq> None)
           \<and> props s1 fn (protectedFnName (uid g) (addTracersToProtectedFunctions g s))
               = Some (VFun (Protected i g (addTracersToProtectedFunctions g s) st fn))
           \<and> flags s1 = flags s"
proof (cases "props s fn (protectedFnName (uid g) (addTracersToProtectedFunctions g s))")
  case None
  then have "\<forall>v. props s fn (protectedFnName (uid g) (addTracersToProtectedFunctions g s)) = Some v
            \<longrightarrow> \<not> truthy v" by simp
  from protectEntryPoint_miss [OF m this, of E] show ?thesis
    by (simp add: getProtectedFunction_eq)
next
  case (Some v)
  with ok obtain i st where v: "v = VFun (Protected i g (addTracersToProtectedFunctions g s) st fn)"
    and st: "addTracersToProtectedFunctions g s \<longleftrightarrow> st \<noteq> None"
    unfolding memo_ok_def by blast
  from v have "truthy v" by simp
  moreover from m have "is_object fn" by (simp add: memoizable_def)
  ultimately have "protectEntryPoint E g fn s = (Inr v, s)"
    using Some by (intro protectEntryPoint_hit)
  with v st Some show ?thesis by auto
qed

lemma protectEntryPoint_built:
  assumes ok: "memo_ok g s" and m: "memoizable g fn s"
    and p: "protectEntryPoint E g fn s = (Inr w, s1)"
  shows "built_by g fn w" and "tracers_of w = addTracersToProtectedFunctions g s"
    and "props s1 fn (protectedFnName (uid g) (addTracersToProtectedFunctions g s)) = Some w"
proof -
  from protectEntryPoint_shape [OF ok m, of E] p
  obtain i st where w: "w = VFun (Protected i g (addTracersToProtectedFunctions g s) st fn)"
    and st: "addTracersToProtectedFunctions g s \<longleftrightarrow> st \<noteq> None"
    and pr: "props s1 fn (protectedFnName (uid g) (addTracersToProtectedFunctions g s)) = Some w"
    by auto
  from w st show "built_by g fn w" unfolding built_by_def by auto
  from w show "tracers_of w = addTracersToProtectedFunctions g s" by simp
  from pr show "props s1 fn (protectedFnName (uid g) (addTracersToProtectedFunctions g s)) = Some w" .
qed

lemma protectEntryPoint_ready:
  assumes rdy: "memo_ready g fn s"
    and p: "protectEntryPoint E g fn s = (Inr w, s1)"
  shows "built_by g fn w" and "tracers_of w = addTracersToProtectedFunctions g s"
    and "props s1 fn (protectedFnName (uid g) (addTracersToProtectedFunctions g s)) = Some w"
proof -
  let ?k = "protectedFnName (uid g) (addTracersToProtectedFunctions g s)"
  from rdy have obj: "is_object fn" by (simp add: memo_ready_def)
  have "built_by g fn w \<and> tracers_of w = addTracersToProtectedFunctions g s
        \<and> props s1 fn ?k = Some w"
  proof (cases "props s fn ?k")
    case None
    with rdy have m: "memoizable g fn s" by (simp add: memo_ready_def memoizable_def)
    from None have "\<forall>v. props s fn ?k = Some v \<longrightarrow> \<not> truthy v" by simp
    from protectEntryPoint_miss [OF m this, of E] p
    have w: "w = fst (getProtectedFunction E g fn s)"
      and s1: "props s1 fn ?k = Some w" by auto
    from w getProtectedFunction_built [of E g fn s w "snd (getProtectedFunction E g fn s)"]
    have "built_by g fn w" and "tracers_of w = addTracersToProtectedFunctions g s"
      by simp_all
    with s1 show ?thesis by simp
  next
    case (Some v)
    with rdy have b: "built_by g fn v" and t: "tracers_of v = addTracersToProtectedFunctions g s"
      by (simp_all add: memo_ready_def)
    from b have "truthy v" by (auto simp: built_by_def)
    from protectEntryPoint_hit [OF obj Some this, of E] p have "w = v" and "s1 = s" by simp_all
    with b t Some show ?thesis by simp
  qed
  then show "built_by g fn w" and "tracers_of w = addTracersToProtectedFunctions g s"
    and "props s1 fn ?k = Some w" by simp_all
qed

lemma memo_ok_protectEntryPoint:
  assumes ok: "memo_ok g s" and g': "uid g' = uid g \<Longrightarrow> g' = g"
  shows "memo_ok g (snd (protectEntryPoint E g' fn s))"
  unfolding memo_ok_def
proof (intro allI impI)
  fix ob b v
  assume st: "props (snd (protectEntryPoint E g' fn s)) ob (protectedFnName (uid g) b) = Some v"
  from protectEntryPoint_props [of E g' fn s ob "protectedFnName (uid g) b"]
  show "\<exists>i st. v = VFun (Protected i g b st ob) \<and> (b \<longleftrightarrow> st \<noteq> None)"
  proof
    assume "props (snd (protectEntryPoint E g' fn s)) ob (protectedFnName (uid g) b)
              = props s ob (protectedFnName (uid g) b)"
    with st ok show ?thesis unfolding memo_ok_def by simp
  next
    assume new: "ob = fn \<and>
      protectedFnName (uid g) b = protectedFnName (uid g') (addTracersToProtectedFunctions g' s) \<and>
      props (snd (protectEntryPoint E g' fn s)) ob (protectedFnName (uid g) b)
        = Some (fst (getProtectedFunction E g' fn s)) \<and>
      (\<forall>v. props s ob (protectedFnName (uid g) b) = Some v \<longrightarrow> \<not> truthy v)"
    then have "uid g = uid g'" and b: "b = addTracersToProtectedFunctions g' s"
      by (simp_all add: protectedFnName_eq_iff)
    with g' have "g' = g" by simp
    with new st b show ?thesis by (auto simp: getProtectedFunction_eq)
  qed
qed

lemma memo_inv_protectEntryPoint:
  assumes ok: "memo_inv s"
  shows "memo_inv (snd (protectEntryPoint E g fn s))"
  unfolding memo_inv_def
proof (intro allI impI)
  fix ob u b v
  assume st: "props (snd (protectEntryPoint E g fn s)) ob (protectedFnName u b) = Some v"
  from protectEntryPoint_props [of E g fn s ob "protectedFnName u b"]
  show "\<exists>i h st. v = VFun (Protected i (Guard u h) b st ob) \<and> (b \<longleftrightarrow> st \<noteq> None)"
  proof
    assume "props (snd (protectEntryPoint E g fn s)) ob (protectedFnName u b)
              = props s ob (protectedFnName u b)"
    with st ok show ?thesis unfolding memo_inv_def by simp
  next
    assume new: "ob = fn \<and>
      protectedFnName u b = protectedFnName (uid g) (addTracersToProtectedFunctions g s) \<and>
      props (snd (protectEntryPoint E g fn s)) ob (protectedFnName u b)
        = Some (fst (getProtectedFunction E g fn s)) \<and>
      (\<forall>v. props s ob (protectedFnName u b) = Some v \<longrightarrow> \<not> truthy v)"
    then have u: "u = uid g" and b: "b = addTracersToProtectedFunctions g s"
      by (simp_all add: protectedFnName_eq_iff)
    obtain u' h where g: "g = Guard u' h" by (cases g)
    with new st b u show ?thesis by (auto simp: getProtectedFunction_eq)
  qed
qed

subsection \<open>Calling a protected closure\<close>

lemma call_protected_untraced:
  "call_val E (VFun (Protected i g False st fn)) this args s =
     protected_try E g fn (this_of this) args s"
  by (cases g) (simp add: protected_try_def apply_fn_def split: prod.split sum.split bool.split)

lemma call_protected_traced:
  "call_val E (VFun (Protected i g True (Some st) fn)) this args s =
     (let (tracer, s1) = startTracer (''protectedEntryPoint: '' @ getStackTraceHolder st) s;
          (r, s4) = protected_try E g fn (this_of this) args s1
      in (r, stopTracer tracer s4))"
  by (cases g) (simp add: protected_try_def apply_fn_def split: prod.split sum.split bool.split)

lemma closure_call:
  assumes "built_by g fn w"
  shows "call_val E w this args s =
     (if tracers_of w
      then (case protected_try E g fn (this_of this) args (snd (startTracer (span_name w) s)) of
              (r, s4) \<Rightarrow> (r, stopTracer (next_tracer s) s4))
      else protected_try E g fn (this_of this) args s)"
proof -
  from assms obtain i st where w: "w = VFun (Protected i g (st \<noteq> None) st fn)"
    unfolding built_by_def by blast
  show ?thesis
  proof (cases st)
    case None
    with w show ?thesis by (simp add: call_protected_untraced)
  next
    case (Some x)
    with w show ?thesis
      by (simp add: call_protected_traced startTracer_def split: prod.split)
  qed
qed


lemma protected_try_returns:
  "apply_fn E fn this args s = (Inr v, s2) \<Longrightarrow> protected_try E g fn this args s = (Inr v, s2)"
  by (simp add: protected_try_def)

lemma protected_try_throws:
  "apply_fn E fn this args s = (Inl e, s2) \<Longrightarrow>
   call_val E (errorHandlerFn g) (VObj (uid g)) [e] s2 = (hr, s3) \<Longrightarrow>
   protected_try E g fn this args s = (Inl (case hr of Inl e' \<Rightarrow> e' | Inr u \<Rightarrow> e), s3)"
  by (simp add: protected_try_def split: sum.split)

lemma call_native_log:
  "log (snd (call_val E (VFun (Native n c)) this args s)) = log s @ [EvCall n this args]"
  by (simp split: prod.split)


section \<open>Invoking a protected function\<close>



text \<open>
  C4, amended. Let \<open>w\<close> be a protected closure of \<open>g\<close> around \<open>fn\<close>. When the protected
  call \<^verbatim>\<open>fn.apply(this, arguments)\<close> throws \<open>e\<close>, the caller of \<open>w\<close> observes \<open>e\<close> itself
  if the handler returns, and the exception of the handler if the handler throws.
\<close>

theorem protected_exception_observed:
  assumes built: "built_by g fn w"
    and thr: "apply_fn E fn (this_of this) args
                (if tracers_of w then snd (startTracer (span_name w) s) else s) = (Inl e, s2)"
    and han: "call_val E (errorHandlerFn g) (VObj (uid g)) [e] s2 = (hr, s3)"
  shows "fst (call_val E w this args s) = Inl (case hr of Inl e' \<Rightarrow> e' | Inr u \<Rightarrow> e)"
  using protected_try_throws [OF _ han] thr
  unfolding closure_call [OF built]
  by (cases "tracers_of w") simp_all

section \<open>The properties on the concrete environment\<close>

lemma memo_ok_demo_state: "memo_ok g demo_state"
  by (simp add: memo_ok_def demo_state_def)

lemma memo_ok_demo_traced: "memo_ok g (setAddTracersToProtectedFunctions g' b demo_state)"
  by (simp add: memo_ok_def demo_state_def setAddTracersToProtectedFunctions_def)

lemma memoizable_demo_state: "is_object fn \<Longrightarrow> memoizable g fn demo_state"
  by (simp add: memoizable_def demo_state_def)

lemma memoizable_demo_traced:
  "is_object fn \<Longrightarrow> memoizable g fn (setAddTracersToProtectedFunctions g' b demo_state)"
  by (simp add: memoizable_def demo_state_def setAddTracersToProtectedFunctions_def)

lemma memo_ready_demo_state: "is_object fn \<Longrightarrow> memo_ready g fn demo_state"
  by (simp add: memo_ready_def demo_state_def)


lemma demo_flag: "addTracersToProtectedFunctions g demo_state = False"
  by (simp add: addTracersToProtectedFunctions_def demo_state_def)

lemma flag_set: "addTracersToProtectedFunctions g (setAddTracersToProtectedFunctions g b s) = b"
  by (simp add: addTracersToProtectedFunctions_def setAddTracersToProtectedFunctions_def)

lemma protect_untraced_miss:
  assumes m: "memoizable g fn s"
    and fl: "flags s (uid g) = None"
    and none: "props s fn (protectedFnName (uid g) False) = None"
  shows "protectEntryPoint E g fn s =
           (Inr (VFun (Protected (next_id s) g False None fn)),
            s\<lparr>props := (props s)(fn := (props s fn)
                           (protectedFnName (uid g) False \<mapsto> VFun (Protected (next_id s) g False None fn))),
              next_id := Suc (next_id s)\<rparr>)"
proof -
  have f: "addTracersToProtectedFunctions g s = False"
    using fl by (simp add: addTracersToProtectedFunctions_def)
  have "\<forall>v. props s fn (protectedFnName (uid g) (addTracersToProtectedFunctions g s)) = Some v
          \<longrightarrow> \<not> truthy v"
    using none by (simp add: f)
  from protectEntryPoint_miss [OF m this]
  show ?thesis by (simp add: getProtectedFunction_eq f)
qed

lemma demo_protect:
  assumes "is_object fn"
  shows "protectEntryPoint demo_env g fn demo_state =
           (Inr (VFun (Protected 10 g False None fn)),
            demo_state\<lparr>props := (props demo_state)
                          (fn := [protectedFnName (uid g) False \<mapsto> VFun (Protected 10 g False None fn)]),
                        next_id := 11\<rparr>)"
proof -
  have "protectEntryPoint demo_env g fn demo_state =
           (Inr (VFun (Protected (next_id demo_state) g False None fn)),
            demo_state\<lparr>props := (props demo_state)(fn := (props demo_state fn)
                           (protectedFnName (uid g) False \<mapsto>
                              VFun (Protected (next_id demo_state) g False None fn))),
              next_id := Suc (next_id demo_state)\<rparr>)"
    by (rule protect_untraced_miss [OF memoizable_demo_state [OF assms]])
       (simp_all add: demo_state_def)
  then show ?thesis by (simp add: demo_state_def)
qed

lemma demo_traced_protect:
  assumes "is_object fn"
  shows "fst (protectEntryPoint demo_env g fn (setAddTracersToProtectedFunctions g True demo_state)) =
           Inr (VFun (Protected 10 g True (Some (''f()'' @ [CR, LF] @ ''g()'' @ [LF])) fn))"
proof -
  let ?s = "setAddTracersToProtectedFunctions g True demo_state"
  have "\<forall>v. props ?s fn (protectedFnName (uid g) (addTracersToProtectedFunctions g ?s))
          = Some v \<longrightarrow> \<not> truthy v"
    by (simp add: demo_state_def setAddTracersToProtectedFunctions_def)
  from protectEntryPoint_miss [OF memoizable_demo_traced [OF assms] this]
  show ?thesis
    by (simp add: getProtectedFunction_eq flag_set)
       (simp add: demo_state_def demo_env_def setAddTracersToProtectedFunctions_def)
qed

lemma frozen_protect:
  assumes obj: "is_object fn"
    and pr: "props s = (\<lambda>ob. Map.empty)"
    and ch: "proto_chain s = (\<lambda>ob. [])"
    and fr: "integrity s = (\<lambda>ob. Frozen)"
  shows "protectEntryPoint E g fn s = (Inr VUndef, snd (getProtectedFunction E g fn s))"
proof -
  let ?k = "protectedFnName (uid g) (addTracersToProtectedFunctions g s)"
  let ?w = "fst (getProtectedFunction E g fn s)"
  let ?s1 = "snd (getProtectedFunction E g fn s)"
  have nn: "fn \<noteq> VUndef \<and> fn \<noteq> VNull" using obj by (rule is_object_not_nullish)
  have s1: "props ?s1 = props s" "proto_chain ?s1 = proto_chain s" "integrity ?s1 = integrity s"
    by (simp_all add: getProtectedFunction_eq)
  have rd: "get_prop fn ?k s = Inr VUndef" "get_prop fn ?k ?s1 = Inr VUndef"
    using nn by (simp_all add: get_prop_def holders_def s1 pr ch)
  have np: "\<not> can_put fn ?k ?s1"
    by (simp add: can_put_def s1 pr fr)
  then have st: "set_prop fn ?k ?w ?s1 = ?s1" by (simp add: set_prop_def)
  show ?thesis
    by (simp add: protectEntryPoint_def Let_def split_beta rd st)
qed

lemma demo_frozen_protect:
  assumes "is_object fn"
  shows "protectEntryPoint demo_env g fn demo_frozen = (Inr VUndef, demo_frozen\<lparr>next_id := 11\<rparr>)"
proof -
  have fl: "addTracersToProtectedFunctions g demo_frozen = False"
    by (simp add: addTracersToProtectedFunctions_def demo_frozen_def demo_state_def)
  have "protectEntryPoint demo_env g fn demo_frozen
          = (Inr VUndef, snd (getProtectedFunction demo_env g fn demo_frozen))"
    using assms by (rule frozen_protect) (simp_all add: demo_frozen_def demo_state_def)
  also have "snd (getProtectedFunction demo_env g fn demo_frozen) = demo_frozen\<lparr>next_id := 11\<rparr>"
    unfolding getProtectedFunction_eq fl by (simp add: demo_frozen_def demo_state_def)
  finally show ?thesis .
qed

lemma demo_inherit_protect:
  assumes "is_object fn" and "fn \<noteq> VFun (Native 5 True)"
  shows "protectEntryPoint demo_env demo_guard fn demo_inherit =
           (Inr (VFun (Protected 9 demo_guard False None (VFun (Native 5 True)))), demo_inherit)"
proof -
  have nn: "fn \<noteq> VUndef \<and> fn \<noteq> VNull" using assms(1) by (rule is_object_not_nullish)
  have fl: "addTracersToProtectedFunctions demo_guard demo_inherit = False"
    by (simp add: addTracersToProtectedFunctions_def demo_inherit_def demo_state_def)
  have u: "uid demo_guard = 0" by (simp add: demo_guard_def)
  have rd: "get_prop fn (protectedFnName 0 False) demo_inherit =
              Inr (VFun (Protected 9 demo_guard False None (VFun (Native 5 True))))"
    using nn assms by (simp add: get_prop_def holders_def demo_inherit_def demo_state_def)
  show ?thesis
    unfolding protectEntryPoint_def Let_def fl u by (simp add: rd)
qed

lemma foreign_protect:
  assumes obj: "is_object fn" and pr: "props s = props demo_foreign"
  shows "protectEntryPoint E demo_guard fn s = (Inr (VNum 1), s)"
proof -
  have u: "uid demo_guard = 0" by (simp add: demo_guard_def)
  have "props s fn (protectedFnName 0 b) = Some (VNum 1)" for b
    by (cases b) (simp_all add: pr demo_foreign_def protectedFnName_eq_iff)
  then have "props s fn (protectedFnName (uid demo_guard)
               (addTracersToProtectedFunctions demo_guard s)) = Some (VNum 1)"
    by (simp only: u)
  from protectEntryPoint_hit [OF obj this] show ?thesis by simp
qed





theorem protected_exception_observed_witness:
  "built_by demo_guard_throwing (VFun (Native 1 True))
     (VFun (Protected 10 demo_guard_throwing False None (VFun (Native 1 True))))
   \<and> fst (apply_fn demo_env (VFun (Native 1 True)) (this_of VNull) [] demo_state)
       = Inl (VStr ''x'')
   \<and> fst (call_val demo_env (errorHandlerFn demo_guard_throwing) (VObj (uid demo_guard_throwing))
            [VStr ''x''] demo_state) = Inl (VStr ''h'')
   \<and> fst (call_val demo_env
            (VFun (Protected 10 demo_guard_throwing False None (VFun (Native 1 True))))
            VNull [] demo_state) = Inl (VStr ''h'')"
proof -
  let ?g = demo_guard_throwing
  let ?f = "VFun (Native 1 True)"
  let ?w = "VFun (Protected 10 ?g False None ?f)"
  let ?sin = "if tracers_of ?w then snd (startTracer (span_name ?w) demo_state) else demo_state"
  let ?s2 = "snd (apply_fn demo_env ?f (this_of VNull) [] ?sin)"
  let ?s3 = "snd (call_val demo_env (errorHandlerFn ?g) (VObj (uid ?g)) [VStr ''x''] ?s2)"
  have b: "built_by ?g ?f ?w" by (simp add: built_by_def)
  have thr: "apply_fn demo_env ?f (this_of VNull) [] ?sin = (Inl (VStr ''x''), ?s2)"
    by (simp add: prod_eq_iff apply_fn_def demo_env_def split: prod.split)
  have han: "call_val demo_env (errorHandlerFn ?g) (VObj (uid ?g)) [VStr ''x''] ?s2
               = (Inl (VStr ''h''), ?s3)"
    by (simp add: prod_eq_iff apply_fn_def demo_env_def demo_guard_throwing_def split: prod.split)
  from protected_exception_observed [OF b thr han]
  have c1: "fst (call_val demo_env ?w VNull [] demo_state) = Inl (VStr ''h'')"
    by simp
  have r: "fst (apply_fn demo_env ?f (this_of VNull) [] demo_state) = Inl (VStr ''x'')"
    by (simp add: apply_fn_def demo_env_def split: prod.split)
  have h: "fst (call_val demo_env (errorHandlerFn ?g) (VObj (uid ?g)) [VStr ''x''] demo_state)
             = Inl (VStr ''h'')"
    by (simp add: demo_env_def demo_guard_throwing_def split: prod.split)
  from b r h c1 show ?thesis by (intro conjI)
qed

theorem protected_exception_observed_counterexample:
  "fst (protectEntryPoint demo_env demo_guard_throwing (VFun (Native 1 True))
          (setAddTracersToProtectedFunctions demo_guard_throwing True demo_state))
     = Inr (VFun (Protected 10 demo_guard_throwing True
                    (Some (''f()'' @ [CR, LF] @ ''g()'' @ [LF])) (VFun (Native 1 True))))
   \<and> call_val demo_env
        (VFun (Protected 10 demo_guard_throwing True
                 (Some (''f()'' @ [CR, LF] @ ''g()'' @ [LF])) (VFun (Native 1 True))))
        (VObj 5) [VNum 3] demo_state
     = (Inl (VStr ''h''),
        demo_state\<lparr>next_tracer := 1,
                    log := [EvStartTracer
            ''protectedEntryPoint: ##PE_STACK_START##f()##STACK_BR##g()##STACK_BR####PE_STACK_END##'' 0,
                            EvCall 1 (VObj 5) [VNum 3],
                            EvCall 3 (VObj 1) [VStr ''x''],
                            EvStopTracer 0],
                    ustate := 2\<rparr>)"
  by (simp add: demo_traced_protect)
     (simp add: demo_env_def demo_guard_throwing_def demo_state_def startTracer_def stopTracer_def
        getStackTraceHolder_def CR_def LF_def)

section \<open>The log only grows\<close>

lemma grows_refl: "grows s s"
  by (simp add: grows_def)

lemma grows_trans:
  assumes "grows s s1" and "grows s1 s2"
  shows "grows s s2"
proof -
  from assms(1) obtain d1 where d1: "log s1 = log s @ d1"
    "\<forall>ev\<in>set d1. \<forall>t. handle_of ev = Some t \<longrightarrow> next_tracer s \<le> t"
    and n1: "next_tracer s \<le> next_tracer s1"
    unfolding grows_def by blast
  from assms(2) obtain d2 where d2: "log s2 = log s1 @ d2"
    "\<forall>ev\<in>set d2. \<forall>t. handle_of ev = Some t \<longrightarrow> next_tracer s1 \<le> t"
    and n2: "next_tracer s1 \<le> next_tracer s2"
    unfolding grows_def by blast
  have "log s2 = log s @ (d1 @ d2)" using d1(1) d2(1) by simp
  moreover have "\<forall>ev\<in>set (d1 @ d2). \<forall>t. handle_of ev = Some t \<longrightarrow> next_tracer s \<le> t"
    using d1(2) d2(2) n1 by fastforce
  moreover have "next_tracer s \<le> next_tracer s2" using n1 n2 by simp
  ultimately show ?thesis unfolding grows_def by blast
qed

lemma grows_native:
  "grows s (s\<lparr>log := log s @ [EvCall n this args], ustate := u\<rparr>)"
  by (simp add: grows_def)

lemma grows_startTracer: "grows s (snd (startTracer name s))"
  by (simp add: grows_def startTracer_def)

lemma grows_stopTracer:
  assumes "grows s s'" and "next_tracer s \<le> t"
  shows "grows s (stopTracer t s')"
proof -
  from assms(1) obtain d where d: "log s' = log s @ d"
    "\<forall>ev\<in>set d. \<forall>t. handle_of ev = Some t \<longrightarrow> next_tracer s \<le> t"
    and n: "next_tracer s \<le> next_tracer s'"
    unfolding grows_def by blast
  have "log (stopTracer t s') = log s @ (d @ [EvStopTracer t])"
    using d(1) by (simp add: stopTracer_def)
  moreover have "\<forall>ev\<in>set (d @ [EvStopTracer t]). \<forall>t'. handle_of ev = Some t' \<longrightarrow> next_tracer s \<le> t'"
    using d(2) assms(2) by auto
  moreover have "next_tracer s \<le> next_tracer (stopTracer t s')"
    using n by (simp add: stopTracer_def)
  ultimately show ?thesis unfolding grows_def by blast
qed

lemma grows_protectEntryPoint: "grows s (snd (protectEntryPoint E g fn s))"
  by (auto simp: grows_def protectEntryPoint_def Let_def get_prop_def set_prop_def
      getProtectedFunction_eq split: sum.split prod.split option.split)

lemma grows_apply_fn:
  assumes "has_call fn = Inr True \<Longrightarrow> grows s (snd (call_val E fn this args s))"
  shows "grows s (snd (apply_fn E fn this args s))"
  using assms by (simp add: apply_fn_def grows_refl split: sum.split bool.split)

lemma grows_try:
  assumes fn: "has_call fn = Inr True \<Longrightarrow> grows s (snd (call_val E fn this args s))"
    and han: "\<And>e s2. apply_fn E fn this args s = (Inl e, s2) \<Longrightarrow>
                grows s2 (snd (call_val E (errorHandlerFn that) (VObj (uid that)) [e] s2))"
  shows "grows s (snd (protected_try E that fn this args s))"
proof -
  obtain r s2 where c: "apply_fn E fn this args s = (r, s2)" by fastforce
  with grows_apply_fn [of fn s E this args, OF fn] have g2: "grows s s2" by simp
  show ?thesis
  proof (cases r)
    case (Inr v)
    with c g2 show ?thesis by (simp add: protected_try_def)
  next
    case (Inl e)
    obtain r3 s3 where c3: "call_val E (errorHandlerFn that) (VObj (uid that)) [e] s2 = (r3, s3)"
      by fastforce
    with han [of e s2] c Inl have "grows s2 s3" by simp
    with g2 have "grows s s3" by (rule grows_trans)
    with c c3 Inl show ?thesis by (cases r3) (simp_all add: protected_try_def)
  qed
qed

lemma call_val_grows: "grows s (snd (call_val E f this args s))"
proof (induction E f this args s rule: call_val.induct)
  case (1 E n c this args s)
  then show ?case by (simp add: grows_native split: prod.split)
next
  case (2 E i g handler tracers stackTrace fn receiver args s)
  let ?that = "Guard g handler"
  let ?rcv = "this_of receiver"
  show ?case
  proof (cases tracers)
    case False
    have "grows s (snd (protected_try E ?that fn ?rcv args s))"
    proof (rule grows_try)
      assume "has_call fn = Inr True"
      then show "grows s (snd (call_val E fn ?rcv args s))"
        using "2.IH"(3) [OF refl False _ refl] by simp
    next
      fix e s2 assume c: "apply_fn E fn ?rcv args s = (Inl e, s2)"
      from "2.IH"(4) [OF refl False c [unfolded apply_fn_def, symmetric] refl]
      show "grows s2 (snd (call_val E (errorHandlerFn ?that) (VObj (uid ?that)) [e] s2))"
        by simp
    qed
    with False show ?thesis by (simp only: call_protected_untraced)
  next
    case True
    show ?thesis
    proof (cases stackTrace)
      case None
      with True show ?thesis by (simp add: grows_refl)
    next
      case (Some st)
      let ?nm = "''protectedEntryPoint: '' @ getStackTraceHolder st"
      let ?s1 = "snd (startTracer ?nm s)"
      have st: "startTracer ?nm s = (next_tracer s, ?s1)"
        by (simp add: startTracer_def)
      have body: "grows ?s1 (snd (protected_try E ?that fn ?rcv args ?s1))"
      proof (rule grows_try)
        assume "has_call fn = Inr True"
        then show "grows ?s1 (snd (call_val E fn ?rcv args ?s1))"
          using "2.IH"(1) [OF refl True Some refl st [symmetric] _ refl] by simp
      next
        fix e s2 assume c: "apply_fn E fn ?rcv args ?s1 = (Inl e, s2)"
        show "grows s2 (snd (call_val E (errorHandlerFn ?that) (VObj (uid ?that)) [e] s2))"
          using "2.IH"(2) [OF refl True Some refl st [symmetric]
              c [unfolded apply_fn_def, symmetric] refl] by simp
      qed
      have "grows s ?s1" by (rule grows_startTracer)
      then have "grows s (snd (protected_try E ?that fn ?rcv args ?s1))"
        using body by (rule grows_trans)
      then have "grows s (stopTracer (next_tracer s) (snd (protected_try E ?that fn ?rcv args ?s1)))"
        by (rule grows_stopTracer) simp
      moreover have "snd (call_val E (VFun (Protected i ?that True (Some st) fn)) receiver args s)
                       = stopTracer (next_tracer s) (snd (protected_try E ?that fn ?rcv args ?s1))"
        by (simp only: call_protected_traced) (simp add: startTracer_def split: prod.split)
      ultimately show ?thesis using True Some by simp
    qed
  qed
next
  case (3 E i that original receiver args s)
  obtain r s1 where p: "protectEntryPoint E that (arg 0 args) s = (r, s1)" by fastforce
  have g1: "grows s s1" using grows_protectEntryPoint [of s E that "arg 0 args"] p by simp
  show ?case
  proof (cases r)
    case (Inl e)
    with p g1 show ?thesis by simp
  next
    case (Inr fn')
    show ?thesis
    proof (cases "has_call original")
      case (Inl e)
      with p g1 Inr show ?thesis by simp
    next
      case hc: (Inr c)
      show ?thesis
      proof (cases c)
        case True
        with hc have hc': "has_call original = Inr True" by simp
        from "3.IH"(1) [OF refl refl refl p [symmetric] Inr hc' refl]
        have "grows s1 (snd (call_val E original (this_of receiver) [fn', arg 1 args] s1))" .
        with g1 have "grows s (snd (call_val E original (this_of receiver) [fn', arg 1 args] s1))"
          by (rule grows_trans)
        with p Inr hc True show ?thesis by simp
      next
        case False
        with hc have hc': "has_call original = Inr False" by simp
        from "3.IH"(2) [OF refl refl refl p [symmetric] Inr hc' refl]
        have "grows s1 (snd (call_val E original VUndef [fn', arg 1 args] s1))" .
        with g1 have "grows s (snd (call_val E original VUndef [fn', arg 1 args] s1))"
          by (rule grows_trans)
        with p Inr hc False show ?thesis by simp
      qed
    qed
  qed
qed (simp_all add: grows_refl)

lemma protected_try_grows: "grows s (snd (protected_try E that fn this args s))"
  by (rule grows_try) (rule call_val_grows)+

lemma grows_fresh_handles:
  assumes "grows (snd (startTracer name s)) s'"
  shows "\<exists>mid. log s' = log s @ [EvStartTracer name (next_tracer s)] @ mid
               \<and> (\<forall>ev\<in>set mid. handle_of ev \<noteq> Some (next_tracer s))"
proof -
  from assms obtain d where d: "log s' = log (snd (startTracer name s)) @ d"
    and h: "\<forall>ev\<in>set d. \<forall>t. handle_of ev = Some t \<longrightarrow> next_tracer (snd (startTracer name s)) \<le> t"
    unfolding grows_def by blast
  have "log s' = log s @ [EvStartTracer name (next_tracer s)] @ d"
    using d by (simp add: startTracer_def)
  moreover have "\<forall>ev\<in>set d. handle_of ev \<noteq> Some (next_tracer s)"
  proof
    fix ev assume ev: "ev \<in> set d"
    show "handle_of ev \<noteq> Some (next_tracer s)"
    proof
      assume "handle_of ev = Some (next_tracer s)"
      with h ev have "next_tracer (snd (startTracer name s)) \<le> next_tracer s" by blast
      then show False by (simp add: startTracer_def)
    qed
  qed
  ultimately show ?thesis by blast
qed

section \<open>Tracing\<close>

text \<open>
  C3. Let \<open>w\<close> be a wrapper of \<open>fn\<close> built by the guard \<open>g\<close> while its flag was set.
  Whatever the receiver, the arguments, the state and the outcome, an invocation of \<open>w\<close>
  adds to the log the start of a span, then the events of the \<^verbatim>\<open>try\<close> and \<^verbatim>\<open>catch\<close>
  blocks (the call of \<open>fn\<close>, and the call of the handler when \<open>fn\<close> throws), then the stop
  of that span, and no event in between starts or stops a span with that handle; when
  \<open>fn\<close> is a host or user function, its call is the first event after the start.
\<close>

theorem tracer_brackets_every_invocation:
  assumes built: "built_by g fn w"
    and traced: "tracers_of w"
  shows "\<exists>mid. log (snd (call_val E w this args s)) =
                 log s @ [EvStartTracer (span_name w) (next_tracer s)] @ mid
                   @ [EvStopTracer (next_tracer s)]
               \<and> log (snd (protected_try E g fn (this_of this) args
                              (snd (startTracer (span_name w) s))))
                   = log s @ [EvStartTracer (span_name w) (next_tracer s)] @ mid
               \<and> (\<forall>ev\<in>set mid. handle_of ev \<noteq> Some (next_tracer s))
               \<and> (\<forall>n. fn = VFun (Native n True) \<longrightarrow>
                     (\<exists>rest. mid = EvCall n (this_of this) args # rest))"
proof -
  let ?s1 = "snd (startTracer (span_name w) s)"
  let ?s4 = "snd (protected_try E g fn (this_of this) args ?s1)"
  have call: "snd (call_val E w this args s) = stopTracer (next_tracer s) ?s4"
    unfolding closure_call [OF built] using traced
    by (simp split: prod.split)
  have "grows ?s1 ?s4" by (rule protected_try_grows)
  from grows_fresh_handles [OF this]
  obtain mid where mid: "log ?s4 = log s @ [EvStartTracer (span_name w) (next_tracer s)] @ mid"
    and fresh: "\<forall>ev\<in>set mid. handle_of ev \<noteq> Some (next_tracer s)"
    by blast
  have "log (snd (call_val E w this args s)) =
          log s @ [EvStartTracer (span_name w) (next_tracer s)] @ mid @ [EvStopTracer (next_tracer s)]"
    unfolding call using mid by (simp add: stopTracer_def)
  moreover have "\<exists>rest. mid = EvCall n (this_of this) args # rest"
    if f: "fn = VFun (Native n True)" for n
  proof -
    obtain r s2 where c: "call_val E (VFun (Native n True)) (this_of this) args ?s1 = (r, s2)"
      by fastforce
    then have l2: "log s2 = log ?s1 @ [EvCall n (this_of this) args]"
      using call_native_log [of E n True "this_of this" args ?s1] by simp
    from c f have ap: "apply_fn E fn (this_of this) args ?s1 = (r, s2)"
      by (simp add: apply_fn_def)
    have "grows s2 ?s4"
    proof (cases r)
      case (Inr v)
      with ap show ?thesis by (simp add: protected_try_returns grows_refl)
    next
      case (Inl e)
      obtain hr s3 where h: "call_val E (errorHandlerFn g) (VObj (uid g)) [e] s2 = (hr, s3)"
        by fastforce
      from ap Inl have "apply_fn E fn (this_of this) args ?s1 = (Inl e, s2)" by simp
      from protected_try_throws [OF this h] have "?s4 = s3" by simp
      moreover have "grows s2 s3" using call_val_grows [of s2 E "errorHandlerFn g" "VObj (uid g)" "[e]"] h
        by simp
      ultimately show ?thesis by simp
    qed
    then obtain d where "log ?s4 = log s2 @ d" unfolding grows_def by blast
    with l2 mid have "log s @ [EvStartTracer (span_name w) (next_tracer s)] @ mid
                    = log s @ [EvStartTracer (span_name w) (next_tracer s)]
                        @ (EvCall n (this_of this) args # d)"
      by (simp add: startTracer_def)
    then show ?thesis by simp
  qed
  ultimately show ?thesis using mid fresh by blast
qed

text \<open>
  C8. When \<^verbatim>\<open>getProtectedFunction\<close> runs with the flag set, it asks once for the call
  stack, with depth 15, and the closure it returns keeps the answer: every invocation of
  the closure, in any later state, starts a span named \<^verbatim>\<open>protectedEntryPoint: \<close>
  followed by \<^verbatim>\<open>##PE_STACK_START##\<close>, the stack with its newline sequences replaced
  and \<^verbatim>\<open>##PE_STACK_END##\<close>; the invocation is that start, the \<^verbatim>\<open>try\<close> and
  \<^verbatim>\<open>catch\<close> blocks, and the stop. With the flag clear the stack is not asked for, and an
  invocation is the \<^verbatim>\<open>try\<close> and \<^verbatim>\<open>catch\<close> blocks alone, with no tracer call.
  The replacement leaves a text without CR and LF unchanged; it turns the leftmost
  newline sequence of a text (CR LF, or LF, or a CR that no LF follows) into
  \<^verbatim>\<open>##STACK_BR##\<close>, keeps what is before it and goes on with what is after it; no CR
  and no LF is left.
\<close>

theorem stack_captured_once_at_wrap_time:
  assumes build: "getProtectedFunction E g fn s = (w, s1)"
  shows "(addTracersToProtectedFunctions g s \<longrightarrow>
            log s1 = log s @ [EvGetStacktrace 15]
          \<and> w = VFun (Protected (next_id s) g True (Some (getStacktraceSimple E 15 (ustate s))) fn)
          \<and> span_name w = ''protectedEntryPoint: '' @ ''##PE_STACK_START##''
                @ replace_newlines (getStacktraceSimple E 15 (ustate s)) @ ''##PE_STACK_END##''
          \<and> CR \<notin> set (replace_newlines (getStacktraceSimple E 15 (ustate s)))
          \<and> LF \<notin> set (replace_newlines (getStacktraceSimple E 15 (ustate s)))
          \<and> (\<forall>this args s'. call_val E w this args s' =
                (case protected_try E g fn (this_of this) args (snd (startTracer (span_name w) s')) of
                   (r, s4) \<Rightarrow> (r, stopTracer (next_tracer s') s4))))
       \<and> (\<not> addTracersToProtectedFunctions g s \<longrightarrow>
            log s1 = log s
          \<and> (\<forall>this args s'. call_val E w this args s' = protected_try E g fn (this_of this) args s'))
       \<and> (\<forall>xs. CR \<notin> set xs \<and> LF \<notin> set xs \<longrightarrow> replace_newlines xs = xs)
       \<and> (\<forall>xs nl ys. CR \<notin> set xs \<and> LF \<notin> set xs
             \<and> (nl = [CR, LF] \<or> nl = [LF] \<or> (nl = [CR] \<and> (ys = [] \<or> hd ys \<noteq> LF)))
             \<longrightarrow> replace_newlines (xs @ nl @ ys) = xs @ ''##STACK_BR##'' @ replace_newlines ys)"
proof -
  have repl: "(\<forall>xs. CR \<notin> set xs \<and> LF \<notin> set xs \<longrightarrow> replace_newlines xs = xs)
       \<and> (\<forall>xs nl ys. CR \<notin> set xs \<and> LF \<notin> set xs
             \<and> (nl = [CR, LF] \<or> nl = [LF] \<or> (nl = [CR] \<and> (ys = [] \<or> hd ys \<noteq> LF)))
             \<longrightarrow> replace_newlines (xs @ nl @ ys) = xs @ ''##STACK_BR##'' @ replace_newlines ys)"
  proof (intro conjI allI impI)
    fix xs
    assume "CR \<notin> set xs \<and> LF \<notin> set xs"
    then show "replace_newlines xs = xs"
      by (induction xs rule: replace_newlines.induct) auto
  next
    fix xs nl ys
    assume a: "CR \<notin> set xs \<and> LF \<notin> set xs
                 \<and> (nl = [CR, LF] \<or> nl = [LF] \<or> (nl = [CR] \<and> (ys = [] \<or> hd ys \<noteq> LF)))"
    have brk: "replace_newlines (nl @ ys) = ''##STACK_BR##'' @ replace_newlines ys"
    proof (cases ys)
      case Nil
      with a show ?thesis by (auto simp: CR_def LF_def)
    next
      case (Cons d ds)
      with a show ?thesis by (auto simp: CR_def LF_def)
    qed
    from a have "CR \<notin> set xs" and "LF \<notin> set xs" by simp_all
    then show "replace_newlines (xs @ nl @ ys) = xs @ ''##STACK_BR##'' @ replace_newlines ys"
    proof (induction xs)
      case Nil
      show ?case using brk by simp
    next
      case (Cons x xs)
      then have x: "x \<noteq> CR" "x \<noteq> LF" by auto
      have "replace_newlines (x # (xs @ nl @ ys)) = x # replace_newlines (xs @ nl @ ys)"
        using x by (cases "xs @ nl @ ys") simp_all
      with Cons show ?case by simp
    qed
  qed
  have clean: "CR \<notin> set (replace_newlines cs) \<and> LF \<notin> set (replace_newlines cs)" for cs
    by (induction cs rule: replace_newlines.induct) (auto simp: CR_def LF_def)
  show ?thesis
  proof (cases "addTracersToProtectedFunctions g s")
    case True
    let ?st = "getStacktraceSimple E 15 (ustate s)"
    from build True have w: "w = VFun (Protected (next_id s) g True (Some ?st) fn)"
      and l: "log s1 = log s @ [EvGetStacktrace 15]"
      by (auto simp: getProtectedFunction_eq)
    have "call_val E w this args s' =
          (case protected_try E g fn (this_of this) args (snd (startTracer (span_name w) s')) of
             (r, s4) \<Rightarrow> (r, stopTracer (next_tracer s') s4))" for this args s'
      unfolding w by (simp only: call_protected_traced) (simp add: startTracer_def split: prod.split)
    with True w l clean [of ?st] repl show ?thesis
      by (simp add: getStackTraceHolder_def)
  next
    case False
    from build False have w: "w = VFun (Protected (next_id s) g False None fn)"
      and l: "log s1 = log s"
      by (auto simp: getProtectedFunction_eq)
    with False repl show ?thesis by (simp add: call_protected_untraced)
  qed
qed

theorem tracer_brackets_every_invocation_witness:
  "built_by demo_guard_throwing (VFun (Native 1 True))
     (VFun (Protected 10 demo_guard_throwing True
              (Some (''f()'' @ [CR, LF] @ ''g()'' @ [LF])) (VFun (Native 1 True))))
   \<and> tracers_of (VFun (Protected 10 demo_guard_throwing True
              (Some (''f()'' @ [CR, LF] @ ''g()'' @ [LF])) (VFun (Native 1 True))))
   \<and> fst (protectEntryPoint demo_env demo_guard_throwing (VFun (Native 1 True))
            (setAddTracersToProtectedFunctions demo_guard_throwing True demo_state))
       = Inr (VFun (Protected 10 demo_guard_throwing True
                      (Some (''f()'' @ [CR, LF] @ ''g()'' @ [LF])) (VFun (Native 1 True))))
   \<and> (\<exists>mid. log (snd (call_val demo_env
                  (VFun (Protected 10 demo_guard_throwing True
                      (Some (''f()'' @ [CR, LF] @ ''g()'' @ [LF])) (VFun (Native 1 True))))
                  VUndef [] demo_state))
             = [EvStartTracer
                  ''protectedEntryPoint: ##PE_STACK_START##f()##STACK_BR##g()##STACK_BR####PE_STACK_END##'' 0]
                 @ mid @ [EvStopTracer 0]
           \<and> mid = [EvCall 1 VGlobal [], EvCall 3 (VObj 1) [VStr ''x'']]
           \<and> list_all (\<lambda>ev. handle_of ev \<noteq> Some 0) mid)"
proof -
  let ?g = demo_guard_throwing
  let ?s0 = "setAddTracersToProtectedFunctions ?g True demo_state"
  let ?f = "VFun (Native 1 True)"
  let ?w = "VFun (Protected 10 ?g True (Some (''f()'' @ [CR, LF] @ ''g()'' @ [LF])) ?f)"
  let ?nm = "''protectedEntryPoint: ##PE_STACK_START##f()##STACK_BR##g()##STACK_BR####PE_STACK_END##''"
  have b: "built_by ?g ?f ?w" by (simp add: built_by_def)
  have tr: "tracers_of ?w" by simp
  have p: "fst (protectEntryPoint demo_env ?g ?f ?s0) = Inr ?w"
    by (simp add: demo_traced_protect)
  from tracer_brackets_every_invocation [OF b tr, of demo_env VUndef "[]" demo_state]
  obtain mid where
    l: "log (snd (call_val demo_env ?w VUndef [] demo_state)) =
          log demo_state @ [EvStartTracer (span_name ?w) (next_tracer demo_state)] @ mid
            @ [EvStopTracer (next_tracer demo_state)]"
    and fresh: "\<forall>ev\<in>set mid. handle_of ev \<noteq> Some (next_tracer demo_state)"
    and first: "\<forall>n. ?f = VFun (Native n True) \<longrightarrow> (\<exists>rest. mid = EvCall n (this_of VUndef) [] # rest)"
    by (elim exE conjE) (rule that, assumption+)
  have comp: "log (snd (call_val demo_env ?w VUndef [] demo_state)) =
                [EvStartTracer ?nm 0, EvCall 1 VGlobal [], EvCall 3 (VObj 1) [VStr ''x''], EvStopTracer 0]"
    by (simp add: demo_env_def demo_guard_throwing_def demo_state_def startTracer_def stopTracer_def
        getStackTraceHolder_def CR_def LF_def)
  from l have m: "mid = [EvCall 1 VGlobal [], EvCall 3 (VObj 1) [VStr ''x'']]"
    unfolding comp by (simp add: demo_state_def)
  from fresh have fr: "list_all (\<lambda>ev. handle_of ev \<noteq> Some 0) mid"
    by (simp add: list_all_iff demo_state_def)
  from comp m fr have "\<exists>mid. log (snd (call_val demo_env ?w VUndef [] demo_state))
             = [EvStartTracer ?nm 0] @ mid @ [EvStopTracer 0]
           \<and> mid = [EvCall 1 VGlobal [], EvCall 3 (VObj 1) [VStr ''x'']]
           \<and> list_all (\<lambda>ev. handle_of ev \<noteq> Some 0) mid"
    by simp
  with b tr p show ?thesis by (intro conjI)
qed

theorem stack_captured_once_at_wrap_time_witness:
  "addTracersToProtectedFunctions demo_guard (setAddTracersToProtectedFunctions demo_guard True demo_state)
   \<and> log (snd (getProtectedFunction demo_env demo_guard (VFun (Native 0 True))
                 (setAddTracersToProtectedFunctions demo_guard True demo_state)))
       = [EvGetStacktrace 15]
   \<and> span_name (fst (getProtectedFunction demo_env demo_guard (VFun (Native 0 True))
                 (setAddTracersToProtectedFunctions demo_guard True demo_state)))
       = ''protectedEntryPoint: ##PE_STACK_START##f()##STACK_BR##g()##STACK_BR####PE_STACK_END##''
   \<and> log (snd (call_val demo_env
                 (fst (getProtectedFunction demo_env demo_guard (VFun (Native 0 True))
                        (setAddTracersToProtectedFunctions demo_guard True demo_state)))
                 (VObj 5) [] demo_state))
       = [EvStartTracer
            ''protectedEntryPoint: ##PE_STACK_START##f()##STACK_BR##g()##STACK_BR####PE_STACK_END##'' 0,
          EvCall 0 (VObj 5) [], EvStopTracer 0]
   \<and> \<not> addTracersToProtectedFunctions demo_guard demo_state
   \<and> log (snd (getProtectedFunction demo_env demo_guard (VFun (Native 0 True)) demo_state)) = []
   \<and> log (snd (call_val demo_env
                 (fst (getProtectedFunction demo_env demo_guard (VFun (Native 0 True)) demo_state))
                 (VObj 5) [] demo_state))
       = [EvCall 0 (VObj 5) []]
   \<and> CR \<notin> set ''g()'' \<and> LF \<notin> set ''g()'' \<and> CR \<notin> set ''f()'' \<and> LF \<notin> set ''f()''
   \<and> replace_newlines (''f()'' @ [CR, LF] @ ''g()'' @ [LF]) = ''f()##STACK_BR##g()##STACK_BR##''
   \<and> replace_newlines (''a'' @ [CR] @ ''b'') = ''a##STACK_BR##b''"
proof -
  let ?g = demo_guard
  let ?s0 = "setAddTracersToProtectedFunctions ?g True demo_state"
  let ?f = "VFun (Native 0 True)"
  let ?b1 = "getProtectedFunction demo_env ?g ?f ?s0"
  let ?b0 = "getProtectedFunction demo_env ?g ?f demo_state"
  have tr: "addTracersToProtectedFunctions ?g ?s0" by (simp add: flag_set)
  have ntr: "\<not> addTracersToProtectedFunctions ?g demo_state" by (simp add: demo_flag)
  have e1: "?b1 = (fst ?b1, snd ?b1)" and e0: "?b0 = (fst ?b0, snd ?b0)" by simp_all
  note t1 = stack_captured_once_at_wrap_time [OF e1, THEN conjunct1, rule_format, OF tr]
  note t0 = stack_captured_once_at_wrap_time [OF e0, THEN conjunct2, THEN conjunct1, rule_format, OF ntr]
  note ra = stack_captured_once_at_wrap_time [OF e0, THEN conjunct2, THEN conjunct2, THEN conjunct1,
      rule_format]
  note rb = stack_captured_once_at_wrap_time [OF e0, THEN conjunct2, THEN conjunct2, THEN conjunct2,
      rule_format]
  from t1 [THEN conjunct1] have l1: "log (snd ?b1) = [EvGetStacktrace 15]"
    by (simp add: demo_state_def setAddTracersToProtectedFunctions_def)
  from t1 [THEN conjunct2, THEN conjunct1]
  have w1: "fst ?b1 = VFun (Protected 10 ?g True (Some (''f()'' @ [CR, LF] @ ''g()'' @ [LF])) ?f)"
    by (simp add: demo_env_def demo_state_def setAddTracersToProtectedFunctions_def)
  from t1 [THEN conjunct2, THEN conjunct2, THEN conjunct1]
  have n1: "span_name (fst ?b1)
       = ''protectedEntryPoint: ##PE_STACK_START##f()##STACK_BR##g()##STACK_BR####PE_STACK_END##''"
    by (simp add: demo_env_def CR_def LF_def)
  have c1: "log (snd (call_val demo_env (fst ?b1) (VObj 5) [] demo_state))
       = [EvStartTracer
            ''protectedEntryPoint: ##PE_STACK_START##f()##STACK_BR##g()##STACK_BR####PE_STACK_END##'' 0,
          EvCall 0 (VObj 5) [], EvStopTracer 0]"
    unfolding w1
    by (simp add: demo_env_def demo_guard_def demo_state_def startTracer_def stopTracer_def
        getStackTraceHolder_def CR_def LF_def)
  from t0 [THEN conjunct1] have l0: "log (snd ?b0) = []" by (simp add: demo_state_def)
  from t0 [THEN conjunct2, rule_format, of "VObj 5" "[]" demo_state]
  have c0: "log (snd (call_val demo_env (fst ?b0) (VObj 5) [] demo_state)) = [EvCall 0 (VObj 5) []]"
    by (simp add: protected_try_def apply_fn_def demo_env_def demo_state_def)
  have g: "CR \<notin> set ''g()''" "LF \<notin> set ''g()''" and f: "CR \<notin> set ''f()''" "LF \<notin> set ''f()''"
    and a: "CR \<notin> set ''a''" "LF \<notin> set ''a''" and b: "CR \<notin> set ''b''" "LF \<notin> set ''b''"
    by (simp_all add: CR_def LF_def)
  have r0: "replace_newlines [] = []" using ra [of "[]"] by simp
  have r1: "replace_newlines (''g()'' @ [LF] @ []) = ''g()'' @ ''##STACK_BR##'' @ replace_newlines []"
    using g by (intro rb) simp
  have r2: "replace_newlines (''f()'' @ [CR, LF] @ (''g()'' @ [LF] @ []))
              = ''f()'' @ ''##STACK_BR##'' @ replace_newlines (''g()'' @ [LF] @ [])"
    using f by (intro rb) simp
  have r3: "replace_newlines (''a'' @ [CR] @ ''b'') = ''a'' @ ''##STACK_BR##'' @ replace_newlines ''b''"
    using a by (intro rb) (simp add: LF_def)
  have r4: "replace_newlines ''b'' = ''b''" using b by (intro ra) simp
  have s1: "replace_newlines (''f()'' @ [CR, LF] @ ''g()'' @ [LF]) = ''f()##STACK_BR##g()##STACK_BR##''"
    using r2 unfolding r1 r0 by simp
  have s2: "replace_newlines (''a'' @ [CR] @ ''b'') = ''a##STACK_BR##b''"
    unfolding r3 r4 by simp
  from tr l1 n1 c1 ntr l0 c0 g f s1 s2 show ?thesis by (intro conjI)
qed

section \<open>What every call preserves\<close>

lemma protected_try_preserves:
  assumes fn: "has_call fn = Inr True \<Longrightarrow> P s \<Longrightarrow> P (snd (call_val E fn this args s))"
    and han: "\<And>e s2. apply_fn E fn this args s = (Inl e, s2) \<Longrightarrow> P s2 \<Longrightarrow>
                P (snd (call_val E (errorHandlerFn that) (VObj (uid that)) [e] s2))"
    and P: "P s"
  shows "P (snd (protected_try E that fn this args s))"
proof -
  obtain r s2 where c: "apply_fn E fn this args s = (r, s2)" by fastforce
  have "P (snd (apply_fn E fn this args s))"
    using fn P by (simp add: apply_fn_def split: sum.split bool.split)
  with c have p2: "P s2" by simp
  show ?thesis
  proof (cases r)
    case (Inr v)
    with c p2 show ?thesis by (simp add: protected_try_def)
  next
    case (Inl e)
    obtain r3 s3 where c3: "call_val E (errorHandlerFn that) (VObj (uid that)) [e] s2 = (r3, s3)"
      by fastforce
    with han [of e s2] c Inl p2 have "P s3" by simp
    with c c3 Inl show ?thesis by (cases r3) (simp_all add: protected_try_def)
  qed
qed

lemma call_val_preserves:
  assumes native: "\<And>s n this args u. P s \<Longrightarrow> P (s\<lparr>log := log s @ [EvCall n this args], ustate := u\<rparr>)"
    and start: "\<And>s name. P s \<Longrightarrow> P (snd (startTracer name s))"
    and stop: "\<And>s t. P s \<Longrightarrow> P (stopTracer t s)"
    and prot: "\<And>s that fn. Q that \<Longrightarrow> P s \<Longrightarrow> P (snd (protectEntryPoint E that fn s))"
    and shims: "\<forall>that\<in>shim_guards f. Q that"
    and P: "P s"
  shows "P (snd (call_val E f this args s))"
  using assms
proof (induction E f this args s rule: call_val.induct)
  case (1 E n c this args s)
  then show ?case by (simp split: prod.split)
next
  case (2 E i g handler tracers stackTrace fn receiver args s)
  let ?that = "Guard g handler"
  let ?rcv = "this_of receiver"
  note step = "2.prems"(1-4)
  have sh_fn: "\<forall>that\<in>shim_guards fn. Q that" and sh_h: "\<forall>that\<in>shim_guards handler. Q that"
    using "2.prems"(5) by simp_all
  show ?case
  proof (cases tracers)
    case False
    have "P (snd (protected_try E ?that fn ?rcv args s))"
    proof (rule protected_try_preserves)
      assume "has_call fn = Inr True" and "P s"
      then show "P (snd (call_val E fn ?rcv args s))"
        using "2.IH"(3) [OF refl False _ refl step sh_fn] by simp
    next
      fix e s2 assume c: "apply_fn E fn ?rcv args s = (Inl e, s2)" and "P s2"
      then show "P (snd (call_val E (errorHandlerFn ?that) (VObj (uid ?that)) [e] s2))"
        using "2.IH"(4) [OF refl False c [unfolded apply_fn_def, symmetric] refl step sh_h] by simp
    next
      show "P s" by fact
    qed
    with False show ?thesis by (simp only: call_protected_untraced)
  next
    case True
    show ?thesis
    proof (cases stackTrace)
      case None
      with True "2.prems"(6) show ?thesis by simp
    next
      case (Some st)
      let ?nm = "''protectedEntryPoint: '' @ getStackTraceHolder st"
      let ?s1 = "snd (startTracer ?nm s)"
      have st: "startTracer ?nm s = (next_tracer s, ?s1)"
        by (simp add: startTracer_def)
      have P1: "P ?s1" using "2.prems"(6) by (rule step(2))
      have "P (snd (protected_try E ?that fn ?rcv args ?s1))"
      proof (rule protected_try_preserves)
        assume "has_call fn = Inr True" and "P ?s1"
        then show "P (snd (call_val E fn ?rcv args ?s1))"
          using "2.IH"(1) [OF refl True Some refl st [symmetric] _ refl step sh_fn] by simp
      next
        fix e s2 assume c: "apply_fn E fn ?rcv args ?s1 = (Inl e, s2)" and "P s2"
        then show "P (snd (call_val E (errorHandlerFn ?that) (VObj (uid ?that)) [e] s2))"
          using "2.IH"(2) [OF refl True Some refl st [symmetric]
              c [unfolded apply_fn_def, symmetric] refl step sh_h] by simp
      next
        show "P ?s1" by fact
      qed
      then have "P (stopTracer (next_tracer s) (snd (protected_try E ?that fn ?rcv args ?s1)))"
        by (rule step(3))
      moreover have "snd (call_val E (VFun (Protected i ?that True (Some st) fn)) receiver args s)
                       = stopTracer (next_tracer s) (snd (protected_try E ?that fn ?rcv args ?s1))"
        by (simp only: call_protected_traced) (simp add: startTracer_def split: prod.split)
      ultimately show ?thesis using True Some by simp
    qed
  qed
next
  case (3 E i that original receiver args s)
  note step = "3.prems"(1-4)
  have q: "Q that" and sh: "\<forall>that\<in>shim_guards original. Q that"
    using "3.prems"(5) by simp_all
  obtain r s1 where p: "protectEntryPoint E that (arg 0 args) s = (r, s1)" by fastforce
  have P1: "P s1" using step(4) [OF q "3.prems"(6), of "arg 0 args"] p by simp
  show ?case
  proof (cases r)
    case (Inl e)
    with p P1 show ?thesis by simp
  next
    case (Inr fn')
    show ?thesis
    proof (cases "has_call original")
      case (Inl e)
      with p P1 Inr show ?thesis by simp
    next
      case hc: (Inr c)
      show ?thesis
      proof (cases c)
        case True
        with hc have hc': "has_call original = Inr True" by simp
        from "3.IH"(1) [OF refl refl refl p [symmetric] Inr hc' refl step sh P1]
        have "P (snd (call_val E original (this_of receiver) [fn', arg 1 args] s1))" .
        with p Inr hc True show ?thesis by simp
      next
        case False
        with hc have hc': "has_call original = Inr False" by simp
        from "3.IH"(2) [OF refl refl refl p [symmetric] Inr hc' refl step sh P1]
        have "P (snd (call_val E original VUndef [fn', arg 1 args] s1))" .
        with p Inr hc False show ?thesis by simp
      qed
    qed
  qed
qed simp_all

lemma props_le_refl: "props_le s s"
  by (simp add: props_le_def)

lemma props_le_trans: "props_le s s1 \<Longrightarrow> props_le s1 s2 \<Longrightarrow> props_le s s2"
  unfolding props_le_def by blast

lemma props_le_same: "props s' = props s \<Longrightarrow> props_le s s'"
  by (simp add: props_le_def)

lemma props_le_protectEntryPoint: "props_le s (snd (protectEntryPoint E g fn s))"
  unfolding props_le_def
proof (intro allI impI)
  fix ob k v
  assume a: "props s ob k = Some v \<and> truthy v"
  from protectEntryPoint_props [of E g fn s ob k] a
  show "props (snd (protectEntryPoint E g fn s)) ob k = Some v" by auto
qed

lemma props_le_call_val: "props_le s (snd (call_val E f this args s))"
proof -
  have "props_le s (snd (call_val E f this args s))"
  proof (rule call_val_preserves [where P = "props_le s" and Q = "\<lambda>g. True"])
    show "props_le s s" by (rule props_le_refl)
  next
    fix s' :: "'a state" and that fn assume "props_le s s'"
    then show "props_le s (snd (protectEntryPoint E that fn s'))"
      using props_le_protectEntryPoint by (rule props_le_trans)
  qed (simp_all add: props_le_def startTracer_def stopTracer_def)
  then show ?thesis .
qed

lemma props_le_exec: "props_le s (exec E x s)"
proof (cases x)
  case (OpProtect g fn)
  then show ?thesis by (simp add: props_le_protectEntryPoint)
next
  case (OpInvoke f this args)
  then show ?thesis by (simp add: props_le_call_val)
qed (auto simp: props_le_def ErrorHandler_def setAddTracersToProtectedFunctions_def
      protectWindowSetTimeout_def protectWindowSetInterval_def Let_def split: option.split)

lemma props_le_run: "props_le s (run E xs s)"
proof (induction xs arbitrary: s)
  case Nil
  show ?case by (simp add: props_le_refl)
next
  case (Cons x xs)
  have "props_le s (exec E x s)" by (rule props_le_exec)
  moreover have "props_le (exec E x s) (run E xs (exec E x s))" by (rule Cons.IH)
  ultimately show ?case by (simp add: props_le_trans)
qed

lemma memo_inv_props: "props s' = props s \<Longrightarrow> memo_inv s \<Longrightarrow> memo_inv s'"
  by (simp add: memo_inv_def)

lemma memo_ok_props: "props s' = props s \<Longrightarrow> memo_ok g s \<Longrightarrow> memo_ok g s'"
  by (simp add: memo_ok_def)

lemma memo_inv_call_val:
  assumes "memo_inv s"
  shows "memo_inv (snd (call_val E f this args s))"
proof (rule call_val_preserves [where P = memo_inv and Q = "\<lambda>g. True"])
  show "memo_inv s" by fact
next
  fix s' :: "'a state" and that fn assume "memo_inv s'"
  then show "memo_inv (snd (protectEntryPoint E that fn s'))"
    by (rule memo_inv_protectEntryPoint)
qed (simp_all add: memo_inv_def startTracer_def stopTracer_def)

lemma memo_ok_call_val:
  assumes "memo_ok g s" and "\<forall>that\<in>shim_guards f. same_guard g that"
  shows "memo_ok g (snd (call_val E f this args s))"
proof (rule call_val_preserves [where P = "memo_ok g" and Q = "same_guard g"])
  show "memo_ok g s" by fact
  show "\<forall>that\<in>shim_guards f. same_guard g that" by fact
next
  fix s' :: "'a state" and that fn assume "same_guard g that" and "memo_ok g s'"
  then show "memo_ok g (snd (protectEntryPoint E that fn s'))"
    by (intro memo_ok_protectEntryPoint) (simp_all add: same_guard_def)
qed (simp_all add: memo_ok_def startTracer_def stopTracer_def)

lemma props_other:
  "props (snd (ErrorHandler h s)) = props s"
  "props (setAddTracersToProtectedFunctions g b s) = props s"
  "props (snd (protectWindowSetTimeout g s)) = props s"
  "props (snd (protectWindowSetInterval g s)) = props s"
  by (simp_all add: ErrorHandler_def setAddTracersToProtectedFunctions_def
      protectWindowSetTimeout_def protectWindowSetInterval_def Let_def split: option.split)

lemma memo_inv_exec: "memo_inv s \<Longrightarrow> memo_inv (exec E x s)"
proof (cases x)
  case (OpProtect g fn)
  assume "memo_inv s"
  with OpProtect show ?thesis by (simp add: memo_inv_protectEntryPoint)
next
  case (OpInvoke f this args)
  assume "memo_inv s"
  with OpInvoke show ?thesis by (simp add: memo_inv_call_val)
qed (simp_all add: memo_inv_def props_other)

lemma memo_inv_run: "memo_inv s \<Longrightarrow> memo_inv (run E xs s)"
  by (induction xs arbitrary: s) (simp_all add: memo_inv_exec)

lemma memo_ok_exec:
  assumes "memo_ok g s" and "op_respects g x"
  shows "memo_ok g (exec E x s)"
proof (cases x)
  case (OpProtect g' fn)
  with assms show ?thesis
    by (simp add: memo_ok_protectEntryPoint same_guard_def)
next
  case (OpInvoke f this args)
  with assms show ?thesis by (simp add: memo_ok_call_val)
qed (use assms in \<open>simp_all add: memo_ok_def props_other\<close>)

lemma memo_ok_run:
  "memo_ok g s \<Longrightarrow> list_all (op_respects g) xs \<Longrightarrow> memo_ok g (run E xs s)"
  by (induction xs arbitrary: s) (simp_all add: memo_ok_exec)

lemma shape_call_val:
  "proto_chain (snd (call_val E f this args s)) = proto_chain s
   \<and> integrity (snd (call_val E f this args s)) = integrity s"
proof (rule call_val_preserves
    [where P = "\<lambda>s'. proto_chain s' = proto_chain s \<and> integrity s' = integrity s"
       and Q = "\<lambda>g. True"])
  show "proto_chain s = proto_chain s \<and> integrity s = integrity s" by simp
qed (simp_all add: startTracer_def stopTracer_def protectEntryPoint_frame)

lemma shape_exec:
  "proto_chain (exec E x s) = proto_chain s \<and> integrity (exec E x s) = integrity s"
proof (cases x)
  case (OpProtect g fn)
  then show ?thesis by (simp add: protectEntryPoint_frame)
next
  case (OpInvoke f this args)
  then show ?thesis by (simp add: shape_call_val)
qed (auto simp: ErrorHandler_def setAddTracersToProtectedFunctions_def
      protectWindowSetTimeout_def protectWindowSetInterval_def Let_def split: option.split)

lemma shape_run:
  "proto_chain (run E xs s) = proto_chain s \<and> integrity (run E xs s) = integrity s"
  by (induction xs arbitrary: s) (simp_all add: shape_exec)

section \<open>Memoization\<close>

lemma protectEntryPoint_object:
  assumes m: "memoizable g fn s" and p: "protectEntryPoint E g fn s = (r, s1)"
  shows "\<exists>w. r = Inr w \<and> truthy w
             \<and> props s1 fn (protectedFnName (uid g) (addTracersToProtectedFunctions g s)) = Some w"
proof (cases "\<forall>v. props s fn (protectedFnName (uid g) (addTracersToProtectedFunctions g s)) = Some v
                  \<longrightarrow> \<not> truthy v")
  case True
  from protectEntryPoint_miss [OF m True, of E] p show ?thesis
    by (auto simp: getProtectedFunction_eq)
next
  case False
  then obtain v where v: "props s fn (protectedFnName (uid g) (addTracersToProtectedFunctions g s)) = Some v"
    and t: "truthy v" by blast
  from m have "is_object fn" by (simp add: memoizable_def)
  from protectEntryPoint_hit [OF this v t, of E] p v t show ?thesis by auto
qed

lemma memo_ready_memoizable: "memo_ready g fn s \<Longrightarrow> memoizable g fn s"
  by (auto simp: memo_ready_def memoizable_def built_by_def split: option.splits)

lemma chain_lookup_Some:
  "chain_lookup pr ps k = Some v \<Longrightarrow> \<exists>p\<in>set ps. pr p k = Some v"
  by (induction ps) (auto split: option.splits)

lemma holders_object: "is_object ob \<Longrightarrow> holders ob s = ob # proto_chain s ob"
  by (simp add: holders_def)

lemma protectEntryPoint_result:
  assumes ok: "memo_ok g s" and obj: "is_object fn" and ext: "integrity s fn = Extensible"
    and p: "protectEntryPoint E g fn s = (r, s1)"
  shows "\<exists>w h. r = Inr w \<and> h \<in> set (holders fn s) \<and> built_by g h w
             \<and> tracers_of w = addTracersToProtectedFunctions g s
             \<and> props s1 h (protectedFnName (uid g) (addTracersToProtectedFunctions g s)) = Some w"
proof (cases "chain_lookup (props s) (holders fn s)
                (protectedFnName (uid g) (addTracersToProtectedFunctions g s))")
  case None
  then have none: "\<forall>p\<in>set (holders fn s).
                     props s p (protectedFnName (uid g) (addTracersToProtectedFunctions g s)) = None"
    by (simp add: chain_lookup_None)
  with obj ext have m: "memoizable g fn s"
    by (simp add: memoizable_def holders_object)
  from protectEntryPoint_shape [OF ok m, of E] p obtain w where r: "r = Inr w" by auto
  with p have p': "protectEntryPoint E g fn s = (Inr w, s1)" by simp
  have "fn \<in> set (holders fn s)" using obj by (simp add: holders_object)
  with r protectEntryPoint_built [OF ok m p'] show ?thesis by blast
next
  case (Some v)
  let ?k = "protectedFnName (uid g) (addTracersToProtectedFunctions g s)"
  from chain_lookup_Some [OF Some] obtain h where h: "h \<in> set (holders fn s)"
    and st: "props s h ?k = Some v" by blast
  from ok st obtain i t where v: "v = VFun (Protected i g (addTracersToProtectedFunctions g s) t h)"
    and t: "addTracersToProtectedFunctions g s \<longleftrightarrow> t \<noteq> None"
    unfolding memo_ok_def by blast
  from v t have b: "built_by g h v" unfolding built_by_def by auto
  have rd: "get_prop fn ?k s = Inr v"
    using obj is_object_not_nullish [of fn] Some by (simp add: get_prop_def)
  from v have "truthy v" by simp
  with rd have "protectEntryPoint E g fn s = (Inr v, s)"
    by (simp add: protectEntryPoint_def Let_def)
  with p have "r = Inr v" and "s1 = s" by simp_all
  with h st b v show ?thesis by auto
qed

text \<open>
  C2, amended. Let \<open>f\<close> be a function that can hold the memo entry: it holds a wrapper
  \<open>g\<close> built around it under the key already, or it holds nothing there, is extensible and
  inherits no property under the key. Let \<open>g.protectEntryPoint(f)\<close> return \<open>w\<close>. Then \<open>w\<close>
  is a wrapper \<open>g\<close> built around \<open>f\<close>, stored on \<open>f\<close> itself, under the key
  \<^verbatim>\<open>__protected_<uid>_<flag>__\<close> written with the uid of \<open>g\<close> in decimal and the value
  of its flag; no other uid and no other flag value gives that key. After any operations
  of the class (new guards, flag changes, other protections, invocations, timer
  instrumentation), if the flag of \<open>g\<close> has the value it had at the first call, then
  \<open>g.protectEntryPoint(f)\<close> returns the same \<open>w\<close> and changes nothing: no wrapper is built.
\<close>

theorem memoized_wrapper_reused:
  assumes rdy: "memo_ready g (VFun f) s"
    and p1: "protectEntryPoint E g (VFun f) s = (Inr w, s1)"
    and flag: "addTracersToProtectedFunctions g (run E ops s1) = addTracersToProtectedFunctions g s"
  shows "protectEntryPoint E g (VFun f) (run E ops s1) = (Inr w, run E ops s1)
       \<and> built_by g (VFun f) w
       \<and> props s1 (VFun f) (protectedFnName (uid g) (addTracersToProtectedFunctions g s)) = Some w
       \<and> protectedFnName (uid g) (addTracersToProtectedFunctions g s)
           = ''__protected_'' @ string_of_nat (uid g) @ ''_''
               @ (if addTracersToProtectedFunctions g s then ''true'' else ''false'') @ ''__''
       \<and> (\<forall>u b. protectedFnName u b = protectedFnName (uid g) (addTracersToProtectedFunctions g s)
             \<longrightarrow> u = uid g \<and> b = addTracersToProtectedFunctions g s)"
proof -
  let ?k = "protectedFnName (uid g) (addTracersToProtectedFunctions g s)"
  from protectEntryPoint_object [OF memo_ready_memoizable [OF rdy] p1]
  have t: "truthy w" and st: "props s1 (VFun f) ?k = Some w" by auto
  have built: "built_by g (VFun f) w" using rdy p1 by (rule protectEntryPoint_ready(1))
  have "props_le s1 (run E ops s1)" by (rule props_le_run)
  with t st have "props (run E ops s1) (VFun f) ?k = Some w"
    unfolding props_le_def by blast
  then have "props (run E ops s1) (VFun f)
               (protectedFnName (uid g) (addTracersToProtectedFunctions g (run E ops s1))) = Some w"
    by (simp only: flag)
  from protectEntryPoint_hit [OF _ this t, of E]
  have again: "protectEntryPoint E g (VFun f) (run E ops s1) = (Inr w, run E ops s1)" by simp
  have form: "?k = ''__protected_'' @ string_of_nat (uid g) @ ''_''
               @ (if addTracersToProtectedFunctions g s then ''true'' else ''false'') @ ''__''"
    by (simp add: protectedFnName_def string_of_bool_def)
  have inj: "\<forall>u b. protectedFnName u b = ?k \<longrightarrow> u = uid g \<and> b = addTracersToProtectedFunctions g s"
    by (simp add: protectedFnName_eq_iff)
  from again built st form inj show ?thesis by (intro conjI)
qed

text \<open>
  C6, amended. Let \<open>f\<close> be an extensible function, in a state where the keys of \<open>g\<close>
  hold nothing but wrappers \<open>g\<close> built. Let \<open>g.protectEntryPoint(f)\<close> return \<open>w1\<close>, and
  later, after operations that changed the flag of \<open>g\<close>, \<open>w2\<close>. Then \<open>w1\<close> and \<open>w2\<close> are
  different closures; each captured the value the flag had when it was returned; each is
  a wrapper \<open>g\<close> built, around \<open>f\<close> or around an object \<open>f\<close> inherits from, and stays
  stored there under the key of its captured value; and in every state, whatever the flag
  is there, an invocation of either starts and stops a span around its \<^verbatim>\<open>try\<close> and
  \<^verbatim>\<open>catch\<close> blocks exactly when its captured value is true.
\<close>

theorem distinct_wrappers_per_flag:
  assumes ok: "memo_ok g s"
    and resp: "list_all (op_respects g) ops"
    and ext: "integrity s (VFun f) = Extensible"
    and p1: "protectEntryPoint E g (VFun f) s = (Inr w1, s1)"
    and flag: "addTracersToProtectedFunctions g (run E ops s1) \<noteq> addTracersToProtectedFunctions g s"
    and p2: "protectEntryPoint E g (VFun f) (run E ops s1) = (Inr w2, s3)"
  shows "w1 \<noteq> w2
       \<and> tracers_of w1 = addTracersToProtectedFunctions g s
       \<and> tracers_of w2 = addTracersToProtectedFunctions g (run E ops s1)
       \<and> (\<forall>w\<in>{w1, w2}. \<exists>h\<in>set (holders (VFun f) s).
             built_by g h w
           \<and> props s3 h (protectedFnName (uid g) (tracers_of w)) = Some w
           \<and> (\<forall>this args s'.
                call_val E w this args s' =
                  (if tracers_of w
                   then (case protected_try E g h (this_of this) args
                                (snd (startTracer (span_name w) s')) of
                           (r, s4) \<Rightarrow> (r, stopTracer (next_tracer s') s4))
                   else protected_try E g h (this_of this) args s')))"
proof -
  let ?s2 = "run E ops s1"
  let ?H = "set (holders (VFun f) s)"
  have obj: "is_object (VFun f)" by simp
  have s1: "s1 = snd (protectEntryPoint E g (VFun f) s)" using p1 by simp
  have ok1: "memo_ok g s1"
    using memo_ok_protectEntryPoint [OF ok, of g E "VFun f"] p1 by simp
  have ok2: "memo_ok g ?s2" using ok1 resp by (rule memo_ok_run)
  have ext2: "integrity ?s2 (VFun f) = Extensible"
    using ext by (simp add: shape_run s1 protectEntryPoint_frame)
  have hold2: "holders (VFun f) ?s2 = holders (VFun f) s"
    by (simp add: holders_def shape_run s1 protectEntryPoint_frame)
  from protectEntryPoint_result [OF ok obj ext p1]
  obtain h1 where h1: "h1 \<in> ?H" and b1: "built_by g h1 w1"
    and t1: "tracers_of w1 = addTracersToProtectedFunctions g s"
    and st1: "props s1 h1 (protectedFnName (uid g) (addTracersToProtectedFunctions g s)) = Some w1"
    by auto
  from protectEntryPoint_result [OF ok2 obj ext2 p2]
  obtain h2 where h2: "h2 \<in> ?H" and b2: "built_by g h2 w2"
    and t2: "tracers_of w2 = addTracersToProtectedFunctions g ?s2"
    and st2: "props s3 h2 (protectedFnName (uid g) (addTracersToProtectedFunctions g ?s2)) = Some w2"
    unfolding hold2 by auto
  from t1 t2 flag have ne: "w1 \<noteq> w2" by auto
  from b1 have tr1: "truthy w1" by (auto simp: built_by_def)
  have "props_le s1 ?s2" by (rule props_le_run)
  moreover have "props_le ?s2 s3"
    using props_le_protectEntryPoint [of ?s2 E g "VFun f"] p2 by simp
  ultimately have "props_le s1 s3" by (rule props_le_trans)
  with tr1 st1 have st1': "props s3 h1 (protectedFnName (uid g) (tracers_of w1)) = Some w1"
    unfolding props_le_def t1 by blast
  from st2 have st2': "props s3 h2 (protectedFnName (uid g) (tracers_of w2)) = Some w2"
    by (simp only: t2)
  have w1: "\<exists>h\<in>?H. built_by g h w1
           \<and> props s3 h (protectedFnName (uid g) (tracers_of w1)) = Some w1
           \<and> (\<forall>this args s'.
                call_val E w1 this args s' =
                  (if tracers_of w1
                   then (case protected_try E g h (this_of this) args
                                (snd (startTracer (span_name w1) s')) of
                           (r, s4) \<Rightarrow> (r, stopTracer (next_tracer s') s4))
                   else protected_try E g h (this_of this) args s'))"
    using h1 b1 st1' closure_call [OF b1] by blast
  have w2: "\<exists>h\<in>?H. built_by g h w2
           \<and> props s3 h (protectedFnName (uid g) (tracers_of w2)) = Some w2
           \<and> (\<forall>this args s'.
                call_val E w2 this args s' =
                  (if tracers_of w2
                   then (case protected_try E g h (this_of this) args
                                (snd (startTracer (span_name w2) s')) of
                           (r, s4) \<Rightarrow> (r, stopTracer (next_tracer s') s4))
                   else protected_try E g h (this_of this) args s'))"
    using h2 b2 st2' closure_call [OF b2] by blast
  from ne t1 t2 w1 w2 show ?thesis by simp
qed

lemma flag_protectEntryPoint:
  "addTracersToProtectedFunctions g (snd (protectEntryPoint E g' fn s)) =
   addTracersToProtectedFunctions g s"
  by (simp add: addTracersToProtectedFunctions_def protectEntryPoint_frame)

lemma string_of_nat_0: "string_of_nat 0 = ''0''"
proof -
  have "char_of (48::nat) = CHR ''0''" by code_simp
  then show ?thesis by (simp add: string_of_nat.simps [of 0] digit_char_def)
qed

theorem memoized_wrapper_reused_witness:
  "memo_ready demo_guard (VFun (Native 0 True)) demo_state
   \<and> fst (protectEntryPoint demo_env demo_guard (VFun (Native 0 True)) demo_state)
     = Inr (VFun (Protected 10 demo_guard False None (VFun (Native 0 True))))
   \<and> addTracersToProtectedFunctions demo_guard
        (run demo_env
           [OpSetAddTracers demo_guard True, OpProtect demo_guard (VFun (Native 0 True)),
            OpSetAddTracers demo_guard False]
           (snd (protectEntryPoint demo_env demo_guard (VFun (Native 0 True)) demo_state)))
       = addTracersToProtectedFunctions demo_guard demo_state
   \<and> protectEntryPoint demo_env demo_guard (VFun (Native 0 True))
        (run demo_env
           [OpSetAddTracers demo_guard True, OpProtect demo_guard (VFun (Native 0 True)),
            OpSetAddTracers demo_guard False]
           (snd (protectEntryPoint demo_env demo_guard (VFun (Native 0 True)) demo_state)))
       = (Inr (VFun (Protected 10 demo_guard False None (VFun (Native 0 True)))),
          run demo_env
           [OpSetAddTracers demo_guard True, OpProtect demo_guard (VFun (Native 0 True)),
            OpSetAddTracers demo_guard False]
           (snd (protectEntryPoint demo_env demo_guard (VFun (Native 0 True)) demo_state)))
   \<and> props (snd (protectEntryPoint demo_env demo_guard (VFun (Native 0 True)) demo_state))
        (VFun (Native 0 True)) ''__protected_0_false__''
       = Some (VFun (Protected 10 demo_guard False None (VFun (Native 0 True))))
   \<and> protectedFnName 0 False = ''__protected_0_false__''
   \<and> protectedFnName 1 False \<noteq> ''__protected_0_false__''
   \<and> protectedFnName 0 True \<noteq> ''__protected_0_false__''"
proof -
  let ?g = demo_guard
  let ?f = "VFun (Native 0 True)"
  let ?w = "VFun (Protected 10 ?g False None ?f)"
  let ?s1 = "snd (protectEntryPoint demo_env ?g ?f demo_state)"
  let ?ops = "[OpSetAddTracers ?g True, OpProtect ?g ?f, OpSetAddTracers ?g False]"
  have m: "memo_ready ?g ?f demo_state" by (simp add: memo_ready_demo_state)
  have p: "fst (protectEntryPoint demo_env ?g ?f demo_state) = Inr ?w"
    by (simp add: demo_protect)
  then have p1: "protectEntryPoint demo_env ?g ?f demo_state = (Inr ?w, ?s1)"
    by (simp only: prod_eq_iff fst_conv snd_conv simp_thms)
  have flag: "addTracersToProtectedFunctions ?g (run demo_env ?ops ?s1)
                = addTracersToProtectedFunctions ?g demo_state"
    by (simp add: flag_set demo_flag)
  have u: "uid ?g = 0" by (simp add: demo_guard_def)
  note th = memoized_wrapper_reused [OF m p1 flag]
  from th [THEN conjunct2, THEN conjunct2, THEN conjunct2, THEN conjunct1]
  have k: "protectedFnName 0 False = ''__protected_0_false__''"
    by (simp add: demo_flag u string_of_nat_0)
  from th [THEN conjunct1]
  have c1: "protectEntryPoint demo_env ?g ?f (run demo_env ?ops ?s1) = (Inr ?w, run demo_env ?ops ?s1)" .
  from th [THEN conjunct2, THEN conjunct2, THEN conjunct1]
  have c2: "props ?s1 ?f ''__protected_0_false__'' = Some ?w"
    by (simp only: demo_flag u k)
  note inj = th [THEN conjunct2, THEN conjunct2, THEN conjunct2, THEN conjunct2,
      unfolded demo_flag u k, rule_format]
  have n1: "protectedFnName 1 False \<noteq> ''__protected_0_false__''"
    using inj [of 1 False] by auto
  have n2: "protectedFnName 0 True \<noteq> ''__protected_0_false__''"
    using inj [of 0 True] by auto
  from m p flag c1 c2 k n1 n2 show ?thesis by (intro conjI)
qed

theorem memoized_wrapper_reused_counterexample:
  "protectEntryPoint demo_env demo_guard (VFun (Native 0 True)) demo_frozen
     = (Inr VUndef, demo_frozen\<lparr>next_id := 11\<rparr>)
   \<and> props (demo_frozen\<lparr>next_id := 11\<rparr>) (VFun (Native 0 True)) (protectedFnName 0 False) = None
   \<and> protectEntryPoint demo_env demo_guard (VFun (Native 0 True)) (demo_frozen\<lparr>next_id := 11\<rparr>)
     = (Inr VUndef, demo_frozen\<lparr>next_id := 12\<rparr>)
   \<and> protectEntryPoint demo_env demo_guard (VFun (Native 0 True)) demo_inherit
       = (Inr (VFun (Protected 9 demo_guard False None (VFun (Native 5 True)))), demo_inherit)
   \<and> props demo_inherit (VFun (Native 0 True)) (protectedFnName 0 False) = None
   \<and> props demo_inherit (VFun (Native 5 True)) (protectedFnName 0 False)
       = Some (VFun (Protected 9 demo_guard False None (VFun (Native 5 True))))
   \<and> uid demo_guard = 0
   \<and> addTracersToProtectedFunctions demo_guard demo_frozen = False
   \<and> addTracersToProtectedFunctions demo_guard demo_inherit = False
   \<and> protectEntryPoint demo_env demo_guard (VFun (Native 0 True)) demo_foreign
       = (Inr (VNum 1), demo_foreign)"
proof -
  let ?f = "VFun (Native 0 True)"
  let ?s = "demo_frozen\<lparr>next_id := 11\<rparr>"
  have a: "protectEntryPoint demo_env demo_guard ?f demo_frozen = (Inr VUndef, ?s)"
    by (simp add: demo_frozen_protect)
  have b: "props ?s ?f (protectedFnName 0 False) = None"
    by (simp add: demo_frozen_def demo_state_def)
  have fl: "addTracersToProtectedFunctions demo_guard ?s = False"
    by (simp add: addTracersToProtectedFunctions_def demo_frozen_def demo_state_def)
  have "protectEntryPoint demo_env demo_guard ?f ?s
          = (Inr VUndef, snd (getProtectedFunction demo_env demo_guard ?f ?s))"
    by (rule frozen_protect) (simp_all add: demo_frozen_def demo_state_def)
  also have "snd (getProtectedFunction demo_env demo_guard ?f ?s) = demo_frozen\<lparr>next_id := 12\<rparr>"
    unfolding getProtectedFunction_eq fl by (simp add: demo_frozen_def demo_state_def)
  finally have c: "protectEntryPoint demo_env demo_guard ?f ?s
                     = (Inr VUndef, demo_frozen\<lparr>next_id := 12\<rparr>)" .
  have d: "protectEntryPoint demo_env demo_guard ?f demo_inherit
       = (Inr (VFun (Protected 9 demo_guard False None (VFun (Native 5 True)))), demo_inherit)"
    by (simp add: demo_inherit_protect)
  have e: "props demo_inherit ?f (protectedFnName 0 False) = None"
    by (simp add: demo_inherit_def demo_state_def)
  have f: "props demo_inherit (VFun (Native 5 True)) (protectedFnName 0 False)
       = Some (VFun (Protected 9 demo_guard False None (VFun (Native 5 True))))"
    by (simp add: demo_inherit_def demo_state_def)
  have g: "uid demo_guard = 0" by (simp add: demo_guard_def)
  have h: "addTracersToProtectedFunctions demo_guard demo_frozen = False"
    by (simp add: addTracersToProtectedFunctions_def demo_frozen_def demo_state_def)
  have i: "addTracersToProtectedFunctions demo_guard demo_inherit = False"
    by (simp add: addTracersToProtectedFunctions_def demo_inherit_def demo_state_def)
  have j: "protectEntryPoint demo_env demo_guard ?f demo_foreign = (Inr (VNum 1), demo_foreign)"
    by (simp add: foreign_protect)
  from a b c d e f g h i j show ?thesis by (intro conjI)
qed

theorem distinct_wrappers_per_flag_witness:
  "memo_ok demo_guard demo_state
   \<and> list_all (op_respects demo_guard) [OpSetAddTracers demo_guard True]
   \<and> integrity demo_state (VFun (Native 0 True)) = Extensible
   \<and> fst (protectEntryPoint demo_env demo_guard (VFun (Native 0 True)) demo_state)
       = Inr (VFun (Protected 10 demo_guard False None (VFun (Native 0 True))))
   \<and> addTracersToProtectedFunctions demo_guard
        (run demo_env [OpSetAddTracers demo_guard True]
           (snd (protectEntryPoint demo_env demo_guard (VFun (Native 0 True)) demo_state)))
       \<noteq> addTracersToProtectedFunctions demo_guard demo_state
   \<and> fst (protectEntryPoint demo_env demo_guard (VFun (Native 0 True))
        (run demo_env [OpSetAddTracers demo_guard True]
           (snd (protectEntryPoint demo_env demo_guard (VFun (Native 0 True)) demo_state))))
       = Inr (VFun (Protected 11 demo_guard True (Some (''f()'' @ [CR, LF] @ ''g()'' @ [LF]))
                     (VFun (Native 0 True))))
   \<and> VFun (Protected 10 demo_guard False None (VFun (Native 0 True)))
       \<noteq> VFun (Protected 11 demo_guard True (Some (''f()'' @ [CR, LF] @ ''g()'' @ [LF]))
                (VFun (Native 0 True)))
   \<and> holders (VFun (Native 0 True)) demo_state = [VFun (Native 0 True)]
   \<and> log (snd (call_val demo_env (VFun (Protected 10 demo_guard False None (VFun (Native 0 True))))
                 (VObj 5) []
                 (setAddTracersToProtectedFunctions demo_guard True demo_state)))
       = [EvCall 0 (VObj 5) []]"
proof -
  let ?g = demo_guard
  let ?f = "VFun (Native 0 True)"
  let ?w1 = "VFun (Protected 10 ?g False None ?f)"
  let ?w2 = "VFun (Protected 11 ?g True (Some (''f()'' @ [CR, LF] @ ''g()'' @ [LF])) ?f)"
  let ?s1 = "snd (protectEntryPoint demo_env ?g ?f demo_state)"
  let ?ops = "[OpSetAddTracers ?g True]"
  let ?s2 = "setAddTracersToProtectedFunctions ?g True ?s1"
  have r: "run demo_env ?ops ?s1 = ?s2" by simp
  have ok: "memo_ok ?g demo_state" by (rule memo_ok_demo_state)
  have resp: "list_all (op_respects ?g) ?ops" by simp
  have ext: "integrity demo_state ?f = Extensible" by (simp add: demo_state_def)
  have hs: "holders ?f demo_state = [?f]" by (simp add: holders_def demo_state_def)
  have p: "fst (protectEntryPoint demo_env ?g ?f demo_state) = Inr ?w1"
    by (simp add: demo_protect)
  then have p1: "protectEntryPoint demo_env ?g ?f demo_state = (Inr ?w1, ?s1)"
    by (simp only: prod_eq_iff fst_conv snd_conv simp_thms)
  have fl2: "addTracersToProtectedFunctions ?g ?s2 = True"
    by (simp add: flag_set)
  have flag: "addTracersToProtectedFunctions ?g (run demo_env ?ops ?s1)
                \<noteq> addTracersToProtectedFunctions ?g demo_state"
    unfolding r fl2 by (simp add: demo_flag)
  have pr2: "props ?s2 ?f = [protectedFnName (uid ?g) False \<mapsto> ?w1]"
    by (simp add: demo_protect setAddTracersToProtectedFunctions_def)
  have miss: "\<forall>v. props ?s2 ?f (protectedFnName (uid ?g) (addTracersToProtectedFunctions ?g ?s2)) = Some v
                \<longrightarrow> \<not> truthy v"
    unfolding fl2 pr2 by (simp add: protectedFnName_eq_iff)
  have sh2: "integrity ?s2 ?f = Extensible" "proto_chain ?s2 ?f = []"
    by (simp_all add: protectEntryPoint_frame setAddTracersToProtectedFunctions_def)
       (simp_all add: demo_state_def)
  have m2: "memoizable ?g ?f ?s2"
    by (simp add: memoizable_def sh2)
  have nid: "next_id ?s2 = 11" and us: "ustate ?s2 = 0"
    by (simp_all add: demo_protect setAddTracersToProtectedFunctions_def)
       (simp_all add: demo_state_def)
  have stk: "getStacktraceSimple demo_env 15 0 = ''f()'' @ [CR, LF] @ ''g()'' @ [LF]"
    by (simp add: demo_env_def)
  have "fst (protectEntryPoint demo_env ?g ?f ?s2) = Inr (fst (getProtectedFunction demo_env ?g ?f ?s2))"
    by (simp only: protectEntryPoint_miss [OF m2 miss] fst_conv)
  also have "fst (getProtectedFunction demo_env ?g ?f ?s2) = ?w2"
    unfolding getProtectedFunction_eq fst_conv fl2 nid us stk by simp
  finally have q': "fst (protectEntryPoint demo_env ?g ?f ?s2) = Inr ?w2" .
  then have q: "fst (protectEntryPoint demo_env ?g ?f (run demo_env ?ops ?s1)) = Inr ?w2"
    by (simp only: r)
  then have p2: "protectEntryPoint demo_env ?g ?f (run demo_env ?ops ?s1) =
                   (Inr ?w2, snd (protectEntryPoint demo_env ?g ?f (run demo_env ?ops ?s1)))"
    by (simp only: prod_eq_iff fst_conv snd_conv simp_thms)
  note th = distinct_wrappers_per_flag [OF ok resp ext p1 flag p2]
  from th have ne: "?w1 \<noteq> ?w2" by (rule conjunct1)
  let ?s' = "setAddTracersToProtectedFunctions ?g True demo_state"
  from th [THEN conjunct2, THEN conjunct2, THEN conjunct2]
  have "call_val demo_env ?w1 (VObj 5) [] ?s' = protected_try demo_env ?g ?f (this_of (VObj 5)) [] ?s'"
    unfolding hs by simp
  then have c: "log (snd (call_val demo_env ?w1 (VObj 5) [] ?s')) = [EvCall 0 (VObj 5) []]"
    by (simp add: protected_try_def apply_fn_def demo_env_def demo_state_def
        setAddTracersToProtectedFunctions_def)
  from ok resp ext p flag q ne hs c show ?thesis by (intro conjI)
qed

theorem distinct_wrappers_per_flag_counterexample:
  "integrity demo_frozen (VFun (Native 0 True)) = Frozen
   \<and> protectEntryPoint demo_env demo_guard (VFun (Native 0 True)) demo_frozen
     = (Inr VUndef, demo_frozen\<lparr>next_id := 11\<rparr>)
   \<and> addTracersToProtectedFunctions demo_guard demo_frozen = False
   \<and> addTracersToProtectedFunctions demo_guard
       (run demo_env [OpSetAddTracers demo_guard True] (demo_frozen\<lparr>next_id := 11\<rparr>)) = True
   \<and> fst (protectEntryPoint demo_env demo_guard (VFun (Native 0 True))
            (run demo_env [OpSetAddTracers demo_guard True] (demo_frozen\<lparr>next_id := 11\<rparr>)))
     = Inr VUndef
   \<and> integrity demo_foreign (VFun (Native 0 True)) = Extensible
   \<and> protectEntryPoint demo_env demo_guard (VFun (Native 0 True)) demo_foreign
     = (Inr (VNum 1), demo_foreign)
   \<and> addTracersToProtectedFunctions demo_guard demo_foreign = False
   \<and> addTracersToProtectedFunctions demo_guard
       (run demo_env [OpSetAddTracers demo_guard True] demo_foreign) = True
   \<and> fst (protectEntryPoint demo_env demo_guard (VFun (Native 0 True))
            (run demo_env [OpSetAddTracers demo_guard True] demo_foreign))
     = Inr (VNum 1)"
proof -
  let ?f = "VFun (Native 0 True)"
  let ?s = "demo_frozen\<lparr>next_id := 11\<rparr>"
  let ?s2 = "run demo_env [OpSetAddTracers demo_guard True] ?s"
  have a: "integrity demo_frozen ?f = Frozen" by (simp add: demo_frozen_def)
  have b: "protectEntryPoint demo_env demo_guard ?f demo_frozen = (Inr VUndef, ?s)"
    by (simp add: demo_frozen_protect)
  have c: "addTracersToProtectedFunctions demo_guard demo_frozen = False"
    by (simp add: addTracersToProtectedFunctions_def demo_frozen_def demo_state_def)
  have d: "addTracersToProtectedFunctions demo_guard ?s2 = True"
    by (simp add: flag_set)
  have "protectEntryPoint demo_env demo_guard ?f ?s2
          = (Inr VUndef, snd (getProtectedFunction demo_env demo_guard ?f ?s2))"
    by (rule frozen_protect)
       (simp_all add: demo_frozen_def demo_state_def setAddTracersToProtectedFunctions_def)
  then have e: "fst (protectEntryPoint demo_env demo_guard ?f ?s2) = Inr VUndef" by simp
  let ?s3 = "run demo_env [OpSetAddTracers demo_guard True] demo_foreign"
  have f: "integrity demo_foreign ?f = Extensible"
    by (simp add: demo_foreign_def demo_state_def)
  have g: "protectEntryPoint demo_env demo_guard ?f demo_foreign = (Inr (VNum 1), demo_foreign)"
    by (simp add: foreign_protect)
  have h: "addTracersToProtectedFunctions demo_guard demo_foreign = False"
    by (simp add: addTracersToProtectedFunctions_def demo_foreign_def demo_state_def)
  have i: "addTracersToProtectedFunctions demo_guard ?s3 = True"
    by (simp add: flag_set)
  have "protectEntryPoint demo_env demo_guard ?f ?s3 = (Inr (VNum 1), ?s3)"
    by (rule foreign_protect) (simp_all add: setAddTracersToProtectedFunctions_def)
  then have j: "fst (protectEntryPoint demo_env demo_guard ?f ?s3) = Inr (VNum 1)" by simp
  from a b c d e f g h i j show ?thesis by (intro conjI)
qed

section \<open>The timer functions\<close>

lemma installed_shim:
  assumes win: "window s \<noteq> None"
    and inst: "(nm = ''setTimeout'' \<and> s1 = snd (protectWindowSetTimeout g s)) \<or>
               (nm = ''setInterval'' \<and> s1 = snd (protectWindowSetInterval g s))"
  shows "window_prop nm s1 = VFun (TimerShim (next_id s) g (window_prop nm s))"
  using assms
  by (auto simp: window_prop_def protectWindowSetTimeout_def protectWindowSetInterval_def Let_def
      split: option.split)




section \<open>Protecting a protected function\<close>













end
